theory Spec2Isabelle
  imports Complex_Main "HOL-Library.Sublist" "HOL-Library.AList" "HOL-Library.Multiset"
begin

section \<open>Python values as the script sees them\<close>

text \<open>
  A Python \<open>str\<close> is a sequence of Unicode code points, so \<open>len\<close> counts code points and
  the Cyrillic literals of the script are single elements each. Literals that are plain
  ASCII are written with \<open>ascii\<close>; the others are spelled out as code points, with a
  transliteration beside them.
\<close>

type_synonym ustr = "nat list"

definition ascii :: "string \<Rightarrow> ustr" where
  "ascii s = map of_char s"

text \<open>
  What \<open>json.load\<close> returns: \<open>None\<close>, \<open>bool\<close>, \<open>int\<close>, \<open>float\<close>, \<open>str\<close>, \<open>list\<close> and
  \<open>dict\<close>. A \<open>dict\<close> keeps its keys in insertion order, one entry per key; it is an
  association list read with \<open>map_of\<close> and written with \<open>AList.update\<close> (which replaces
  in place or appends, as \<open>d[k] = v\<close> does). Floats are read as reals (no NaN, no rounding).
\<close>

datatype json =
    JNull
  | JBool bool
  | JInt int
  | JFloat real
  | JStr ustr
  | JArr "json list"
  | JObj "(ustr \<times> json) list"

datatype error =
    TypeError
  | AttributeError
  | IndexError
  | KeyError
  | ValueError
  | OSError
  | RuntimeError

definition and_then :: "error + 'a \<Rightarrow> ('a \<Rightarrow> error + 'b) \<Rightarrow> error + 'b" where
  "and_then r f = (case r of Inl e \<Rightarrow> Inl e | Inr x \<Rightarrow> f x)"

text \<open>
  Two builtins rest on tables of the interpreter that are not part of the script:
  \<open>str.lower\<close> (the Unicode case mapping) and the text \<open>str()\<close> gives a float, a list or a
  dict (float formatting, \<open>repr\<close> escaping). Both are parameters of the model; every
  general theorem below holds for whatever they compute.
\<close>

record builtins =
  str_lower :: "ustr \<Rightarrow> ustr"
  repr :: "json \<Rightarrow> ustr"

subsection \<open>Builtins of \<open>str\<close>\<close>

text \<open>\<open>s.split(sep)\<close> for a non-empty \<open>sep\<close>: the occurrences are taken left to right and
  do not overlap. Every separator in the script is a non-empty literal, so the
  \<open>ValueError\<close> of an empty separator cannot arise.\<close>

function split_on :: "'a list \<Rightarrow> 'a list \<Rightarrow> 'a list list" where
  "split_on sep [] = [[]]"
| "split_on sep (c # cs) =
     (if sep \<noteq> [] \<and> prefix sep (c # cs)
      then [] # split_on sep (drop (length sep) (c # cs))
      else (case split_on sep cs of [] \<Rightarrow> [[c]] | p # ps \<Rightarrow> (c # p) # ps))"
  by pat_completeness auto
termination
  by (relation "measure (\<lambda>(sep, s). length s)") (auto simp: neq_Nil_conv)

definition py_split :: "ustr \<Rightarrow> ustr \<Rightarrow> ustr list" where
  "py_split s sep = split_on sep s"

text \<open>\<open>xs[0]\<close> and \<open>xs[-1]\<close> raise \<open>IndexError\<close> on an empty list.\<close>

definition py_first :: "'a list \<Rightarrow> error + 'a" where
  "py_first xs = (case xs of [] \<Rightarrow> Inl IndexError | x # _ \<Rightarrow> Inr x)"

definition py_last :: "'a list \<Rightarrow> error + 'a" where
  "py_last xs = (case xs of [] \<Rightarrow> Inl IndexError | _ # _ \<Rightarrow> Inr (last xs))"

text \<open>\<open>s.rstrip(chars)\<close>, \<open>s.lstrip(chars)\<close> and \<open>s.strip(chars)\<close> remove the characters of
  \<open>chars\<close> from the ends; \<open>s.strip()\<close> removes whitespace, which for a \<open>str\<close> is the set
  of code points with \<open>str.isspace\<close>.\<close>

definition py_lstrip :: "ustr \<Rightarrow> ustr \<Rightarrow> ustr" where
  "py_lstrip s chars = dropWhile (\<lambda>c. c \<in> set chars) s"

definition py_rstrip :: "ustr \<Rightarrow> ustr \<Rightarrow> ustr" where
  "py_rstrip s chars = rev (dropWhile (\<lambda>c. c \<in> set chars) (rev s))"

definition py_strip :: "ustr \<Rightarrow> ustr \<Rightarrow> ustr" where
  "py_strip s chars = py_rstrip (py_lstrip s chars) chars"

definition whitespace :: ustr where
  "whitespace = [9, 10, 11, 12, 13, 28, 29, 30, 31, 32, 133, 160, 5760,
     8192, 8193, 8194, 8195, 8196, 8197, 8198, 8199, 8200, 8201, 8202,
     8232, 8233, 8239, 8287, 12288]"

definition py_strip_ws :: "ustr \<Rightarrow> ustr" where
  "py_strip_ws s = py_strip s whitespace"

subsection \<open>Builtins on parsed JSON\<close>

text \<open>Truth value of an object, as \<open>not x\<close> and \<open>if x:\<close> read it.\<close>

fun py_truthy :: "json \<Rightarrow> bool" where
  "py_truthy JNull = False"
| "py_truthy (JBool b) = b"
| "py_truthy (JInt i) = (i \<noteq> 0)"
| "py_truthy (JFloat r) = (r \<noteq> 0)"
| "py_truthy (JStr s) = (s \<noteq> [])"
| "py_truthy (JArr xs) = (xs \<noteq> [])"
| "py_truthy (JObj kvs) = (kvs \<noteq> [])"

text \<open>\<open>len(x)\<close>: defined for \<open>str\<close>, \<open>list\<close> and \<open>dict\<close>, a \<open>TypeError\<close> otherwise.\<close>

fun py_len :: "json \<Rightarrow> error + int" where
  "py_len (JStr s) = Inr (int (length s))"
| "py_len (JArr xs) = Inr (int (length xs))"
| "py_len (JObj kvs) = Inr (int (length kvs))"
| "py_len _ = Inl TypeError"

text \<open>\<open>x.lower()\<close>: only a \<open>str\<close> has the method.\<close>

fun py_lower :: "builtins \<Rightarrow> json \<Rightarrow> error + ustr" where
  "py_lower rt (JStr s) = Inr (str_lower rt s)"
| "py_lower rt _ = Inl AttributeError"

text \<open>\<open>sub in x\<close> for a \<open>str\<close> on the left: substring test on a \<open>str\<close>, element test on a
  \<open>list\<close> (only an equal \<open>str\<close> is equal to a \<open>str\<close>), key test on a \<open>dict\<close>, and a
  \<open>TypeError\<close> on anything that is not iterable.\<close>

fun py_in :: "ustr \<Rightarrow> json \<Rightarrow> error + bool" where
  "py_in sub (JStr s) = Inr (sublist sub s)"
| "py_in sub (JArr xs) = Inr (JStr sub \<in> set xs)"
| "py_in sub (JObj kvs) = Inr (map_of kvs sub \<noteq> None)"
| "py_in sub _ = Inl TypeError"

text \<open>Decimal digits of an \<open>int\<close>, as \<open>str(n)\<close> prints them.\<close>

function digits :: "nat \<Rightarrow> ustr" where
  "digits n = (if n < 10 then [48 + n] else digits (n div 10) @ [48 + n mod 10])"
  by pat_completeness auto
termination
  by (relation "measure id") auto

declare digits.simps [simp del]

definition str_of_int :: "int \<Rightarrow> ustr" where
  "str_of_int i = (if i < 0 then 45 # digits (nat (- i)) else digits (nat i))"

text \<open>\<open>str(x)\<close>, which is also what an f-string field \<open>{x}\<close> inserts.\<close>

fun py_str :: "builtins \<Rightarrow> json \<Rightarrow> ustr" where
  "py_str rt (JStr s) = s"
| "py_str rt JNull = ascii ''None''"
| "py_str rt (JBool b) = (if b then ascii ''True'' else ascii ''False'')"
| "py_str rt (JInt i) = str_of_int i"
| "py_str rt v = repr rt v"

text \<open>\<open>d.get(key, default)\<close> on a \<open>dict\<close>.\<close>

definition dict_get :: "(ustr \<times> json) list \<Rightarrow> ustr \<Rightarrow> json \<Rightarrow> json" where
  "dict_get kvs key dflt = (case map_of kvs key of None \<Rightarrow> dflt | Some v \<Rightarrow> v)"

section \<open>URL of a comment (\<open>get_comment_url\<close>)\<close>

definition get_comment_url :: "builtins \<Rightarrow> json \<Rightarrow> json \<Rightarrow> ustr \<Rightarrow> error + ustr" where
  "get_comment_url rt directory_name article_url comment_id =
     and_then (py_lower rt directory_name) (\<lambda>dl.
       if sublist (ascii ''habr'') dl then
         and_then (py_in (ascii ''habr.com'') article_url) (\<lambda>known.
           if known then
             (case article_url of
                JStr u \<Rightarrow>
                  and_then (py_last (py_split u (ascii ''/articles/''))) (\<lambda>tail.
                  and_then (py_first (py_split tail (ascii ''/''))) (\<lambda>article_id.
                    Inr (ascii ''https://habr.com/ru/articles/'' @ article_id
                          @ ascii ''/comments/#comment_'' @ comment_id)))
              | _ \<Rightarrow> Inl AttributeError)
           else Inr (ascii ''Unknown Habr URL: '' @ py_str rt article_url))
       else if sublist (ascii ''smart-lab'') dl then
         and_then (py_in (ascii ''smart-lab.ru'') article_url) (\<lambda>known.
           if known then
             (case article_url of
                JStr u \<Rightarrow>
                  and_then (py_last (py_split u (ascii ''/blog/''))) (\<lambda>tail.
                  and_then (py_first (py_split tail (ascii ''.php''))) (\<lambda>article_id.
                    Inr (ascii ''https://smart-lab.ru/blog/'' @ article_id
                          @ ascii ''.php#comment'' @ comment_id)))
              | _ \<Rightarrow> Inl AttributeError)
           else Inr (ascii ''Unknown Smart-Lab URL: '' @ py_str rt article_url))
       else if sublist (ascii ''t-j'') dl \<or> sublist (ascii ''tj'') dl then
         if py_truthy article_url then
           (case article_url of
              JStr u \<Rightarrow>
                and_then (py_first (py_split (py_rstrip u (ascii ''/'')) (ascii ''#''))) (\<lambda>base_url.
                  Inr (base_url @ ascii ''/#c'' @ comment_id))
            | _ \<Rightarrow> Inl AttributeError)
         else Inr (ascii ''Unknown TJ URL (comment: '' @ comment_id @ ascii '')'')
       else Inr (ascii ''Unknown source (url: '' @ py_str rt article_url
                  @ ascii '', comment: '' @ comment_id @ ascii '')''))"

text \<open>An instance of the builtins for the concrete runs below: the case mapping on Basic
  Latin and Cyrillic (\<open>A-Z\<close>, U+0410 to U+042F, U+0400 to U+040F), which is all the
  examples contain. None of the examples prints a float, a list or a dict.\<close>

definition lower_char :: "nat \<Rightarrow> nat" where
  "lower_char c =
     (if 65 \<le> c \<and> c \<le> 90 then c + 32
      else if 1040 \<le> c \<and> c \<le> 1071 then c + 32
      else if 1024 \<le> c \<and> c \<le> 1039 then c + 80
      else c)"

definition builtins_basic :: builtins where
  "builtins_basic = \<lparr> str_lower = map lower_char, repr = (\<lambda>v. []) \<rparr>"

section \<open>Configuration (\<open>Config.__init__\<close>)\<close>

text \<open>The settings the decision and the report read. \<open>MODEL_NAME\<close>, \<open>DEVICE\<close> and
  \<open>MAX_TOKEN_LENGTH\<close> only reach the tokenizer and the network, which the analyzer below
  holds as one function.\<close>

record Config =
  POSITIVE_THRESHOLD :: real
  EXCLUDE_AUTHORS :: "ustr set"
  MIN_COMMENT_LENGTH :: int

text \<open>\<open>EXCLUDE_AUTHORS\<close> from the string of the environment: \<open>strip('"')\<close> (code point
  34), then \<open>strip("'")\<close> (code point 39), then the set comprehension over
  \<open>split(',')\<close>.\<close>

definition exclude_authors :: "ustr \<Rightarrow> ustr set" where
  "exclude_authors exclude_str =
     (let exclude_str = py_strip (py_strip exclude_str [34]) [39]
      in set (map py_strip_ws
               (filter (\<lambda>author. py_strip_ws author \<noteq> []) (py_split exclude_str (ascii '','')))))"

text \<open>The specification's wording of the same set, for comparison: whitespace and quote
  characters are trimmed from the whole string, then from each element, and empty
  elements are dropped.\<close>

definition spec_trim :: "ustr \<Rightarrow> ustr" where
  "spec_trim s = py_strip s (whitespace @ [34, 39])"

definition spec_exclude_authors :: "ustr \<Rightarrow> ustr set" where
  "spec_exclude_authors exclude_str =
     set (filter (\<lambda>author. author \<noteq> [])
           (map spec_trim (py_split (spec_trim exclude_str) (ascii '',''))))"

text \<open>\<open>sep.join(parts)\<close>, used to say what \<open>split\<close> returns.\<close>

fun py_join :: "'a list \<Rightarrow> 'a list list \<Rightarrow> 'a list" where
  "py_join sep [] = []"
| "py_join sep [p] = p"
| "py_join sep (p # q # ps) = p @ sep @ py_join sep (q # ps)"

section \<open>The positivity decision (\<open>SentimentAnalyzer.is_positive_comment\<close>)\<close>

text \<open>
  The analyzer holds the settings, the classifier and the label table of the model.
  \<open>model\<close> stands for tokenizer, network, \<open>sigmoid\<close> and the first row of the result: it
  maps the text to the score vector, or raises. \<open>id2label\<close> is the dict of the model's
  configuration.
\<close>

record SentimentAnalyzer =
  config :: Config
  model :: "json \<Rightarrow> error + real list"
  id2label :: "nat \<Rightarrow> ustr option"

text \<open>\<open>x in s\<close> for a set of strings: a list or a dict on the left is unhashable
  (\<open>TypeError\<close>); any other value that is not a \<open>str\<close> is hashable and not a member.\<close>

fun py_in_strset :: "json \<Rightarrow> ustr set \<Rightarrow> error + bool" where
  "py_in_strset (JStr a) S = Inr (a \<in> S)"
| "py_in_strset (JArr xs) S = Inl TypeError"
| "py_in_strset (JObj kvs) S = Inl TypeError"
| "py_in_strset _ S = Inr False"

text \<open>\<open>proba.argmax()\<close>: the first index of the greatest score; \<open>ValueError\<close> on an empty
  array.\<close>

fun argmax_from :: "real \<Rightarrow> nat \<Rightarrow> nat \<Rightarrow> real list \<Rightarrow> nat" where
  "argmax_from best bi i [] = bi"
| "argmax_from best bi i (x # xs) =
     (if best < x then argmax_from x i (Suc i) xs else argmax_from best bi (Suc i) xs)"

definition argmax :: "real list \<Rightarrow> error + nat" where
  "argmax proba = (case proba of [] \<Rightarrow> Inl ValueError | x # xs \<Rightarrow> Inr (argmax_from x 0 1 xs))"

text \<open>The praise keywords, in Russian: spasibo, blagodaryu, otlichno, prekrasno,
  zamechatelno, velikolepno, khorosho, molodets, bravo, super, klass, kruto, voskhishchen,
  vpechatlen, polezno, pomoglo, otlichnaya statya, khoroshaya rabota.\<close>

definition praise_keywords :: "ustr list" where
  "praise_keywords =
    [[1089, 1087, 1072, 1089, 1080, 1073, 1086],
     [1073, 1083, 1072, 1075, 1086, 1076, 1072, 1088, 1102],
     [1086, 1090, 1083, 1080, 1095, 1085, 1086],
     [1087, 1088, 1077, 1082, 1088, 1072, 1089, 1085, 1086],
     [1079, 1072, 1084, 1077, 1095, 1072, 1090, 1077, 1083, 1100, 1085, 1086],
     [1074, 1077, 1083, 1080, 1082, 1086, 1083, 1077, 1087, 1085, 1086],
     [1093, 1086, 1088, 1086, 1096, 1086],
     [1084, 1086, 1083, 1086, 1076, 1077, 1094],
     [1073, 1088, 1072, 1074, 1086],
     [1089, 1091, 1087, 1077, 1088],
     [1082, 1083, 1072, 1089, 1089],
     [1082, 1088, 1091, 1090, 1086],
     [1074, 1086, 1089, 1093, 1080, 1097, 1077, 1085],
     [1074, 1087, 1077, 1095, 1072, 1090, 1083, 1077, 1085],
     [1087, 1086, 1083, 1077, 1079, 1085, 1086],
     [1087, 1086, 1084, 1086, 1075, 1083, 1086],
     [1086, 1090, 1083, 1080, 1095, 1085, 1072, 1103, 32, 1089, 1090, 1072, 1090, 1100, 1103],
     [1093, 1086, 1088, 1086, 1096, 1072, 1103, 32, 1088, 1072, 1073, 1086, 1090, 1072]]"

text \<open>The function takes whatever the JSON holds under \<open>text\<close> and \<open>author\<close>; the type
  hints of the script (\<open>str\<close>) are not checked at run time. \<open>proba[2]\<close> is read only when
  the label is \<open>positive\<close>, and \<open>text.lower()\<close> only when it is \<open>neutral\<close>.\<close>

definition is_positive_comment ::
    "builtins \<Rightarrow> SentimentAnalyzer \<Rightarrow> json \<Rightarrow> json \<Rightarrow> error + bool" where
  "is_positive_comment rt self text author =
     and_then (py_in_strset author (EXCLUDE_AUTHORS (config self))) (\<lambda>excluded.
       if excluded then Inr False else
     and_then (py_len text) (\<lambda>n.
       if n < MIN_COMMENT_LENGTH (config self) then Inr False else
     and_then (model self text) (\<lambda>proba.
     and_then (argmax proba) (\<lambda>i.
     and_then (case id2label self i of None \<Rightarrow> Inl KeyError | Some l \<Rightarrow> Inr l) (\<lambda>label.
     and_then (if label = ascii ''positive''
               then (if 2 < length proba
                     then Inr (POSITIVE_THRESHOLD (config self) \<le> proba ! 2)
                     else Inl IndexError)
               else Inr False) (\<lambda>confident.
       if confident then Inr True else
     and_then (if label = ascii ''neutral''
               then and_then (py_lower rt text) (\<lambda>lowered.
                      Inr (list_ex (\<lambda>keyword. sublist keyword lowered) praise_keywords))
               else Inr False) (\<lambda>praised.
       if praised then Inr True else Inr False)))))))"

section \<open>Reading one file (\<open>process_json_file\<close>)\<close>

text \<open>
  What \<open>open\<close> and \<open>json.load\<close> give for a file: the parsed document, or an exception
  (\<open>OSError\<close>, \<open>UnicodeDecodeError\<close>, \<open>JSONDecodeError\<close>, all of them \<open>Exception\<close>s) with
  its message. Console output is kept as the list of printed texts; of the script's
  prints only the warning of \<open>process_json_file\<close> is modelled, and printing itself is
  taken not to fail.
\<close>

datatype loaded = Unreadable ustr | Parsed json

record json_file =
  file_name :: ustr
  content :: loaded

text \<open>\<open>d[key] = value\<close> on a \<open>dict\<close>.\<close>

definition dict_set :: "(ustr \<times> json) list \<Rightarrow> ustr \<Rightarrow> json \<Rightarrow> (ustr \<times> json) list" where
  "dict_set kvs key v = AList.update key v kvs"

text \<open>What a \<open>for\<close> loop iterates over: the elements of a \<open>list\<close>, the keys of a \<open>dict\<close>, the
  characters of a \<open>str\<close>; anything else is not iterable.\<close>

fun py_iter :: "json \<Rightarrow> error + json list" where
  "py_iter (JArr xs) = Inr xs"
| "py_iter (JObj kvs) = Inr (map (\<lambda>kv. JStr (fst kv)) kvs)"
| "py_iter (JStr s) = Inr (map (\<lambda>c. JStr [c]) s)"
| "py_iter _ = Inl TypeError"

text \<open>The warning text: a line break, the warning sign (U+26A0, U+FE0F), two blanks,
  \<open>Oshibka chteniya\<close>, the file name, a colon and the message.\<close>

definition read_warning :: "ustr \<Rightarrow> ustr \<Rightarrow> ustr" where
  "read_warning name message =
     [10, 9888, 65039, 32, 32, 1054, 1096, 1080, 1073, 1082, 1072, 32,
      1095, 1090, 1077, 1085, 1080, 1103, 32] @ name @ ascii '': '' @ message"

text \<open>The loop over the comments, with the list \<open>positive_comments\<close> built so far. A
  comment that is not a \<open>dict\<close> has no \<open>get\<close>.\<close>

fun positive_loop ::
    "builtins \<Rightarrow> SentimentAnalyzer \<Rightarrow> json \<Rightarrow> ustr \<Rightarrow> json list \<Rightarrow> json list \<Rightarrow> error + json list" where
  "positive_loop rt analyzer article_url directory_name positive_comments [] =
     Inr positive_comments"
| "positive_loop rt analyzer article_url directory_name positive_comments (comment # comments) =
     (case comment of
        JObj entries \<Rightarrow>
          (let text = dict_get entries (ascii ''text'') (JStr []);
               author = dict_get entries (ascii ''author'') (JStr [])
           in if \<not> py_truthy text \<or> \<not> py_truthy author
              then positive_loop rt analyzer article_url directory_name positive_comments comments
              else (case is_positive_comment rt analyzer text author of
                      Inl e \<Rightarrow> Inl e
                    | Inr positive \<Rightarrow>
                        if positive
                        then positive_loop rt analyzer article_url directory_name
                               (positive_comments @
                                 [JObj (dict_set (dict_set entries (ascii ''article_url'') article_url)
                                          (ascii ''directory_name'') (JStr directory_name))])
                               comments
                        else positive_loop rt analyzer article_url directory_name
                               positive_comments comments))
      | _ \<Rightarrow> Inl AttributeError)"

text \<open>The result is the console output of the call and either the list returned or the
  exception that leaves the function. Only the \<open>open\<close>/\<open>json.load\<close> part stands in the
  \<open>try\<close>; a document that is not a \<open>dict\<close> has no \<open>get\<close>.\<close>

definition process_json_file ::
    "builtins \<Rightarrow> json_file \<Rightarrow> SentimentAnalyzer \<Rightarrow> ustr \<Rightarrow> ustr list \<times> (error + json list)" where
  "process_json_file rt file_path analyzer directory_name =
     (case content file_path of
        Unreadable e \<Rightarrow> ([read_warning (file_name file_path) e], Inr [])
      | Parsed data \<Rightarrow>
          ([], case data of
                 JObj document \<Rightarrow>
                   (let article_url = dict_get document (ascii ''url'') (JStr []);
                        comments = dict_get document (ascii ''comments'') (JArr [])
                    in and_then (py_iter comments)
                         (positive_loop rt analyzer article_url directory_name []))
               | _ \<Rightarrow> Inl AttributeError))"

section \<open>Sorting the comments of a directory\<close>

text \<open>The sort key \<open>c.get('id') if c.get('id') is not None else 0\<close>.\<close>

definition id_key :: "json \<Rightarrow> error + json" where
  "id_key c =
     (case c of
        JObj entries \<Rightarrow>
          (case map_of entries (ascii ''id'') of
             None \<Rightarrow> Inr (JInt 0)
           | Some JNull \<Rightarrow> Inr (JInt 0)
           | Some v \<Rightarrow> Inr v)
      | _ \<Rightarrow> Inl AttributeError)"

text \<open>Numbers compare by value across \<open>int\<close>, \<open>float\<close> and \<open>bool\<close>.\<close>

fun num_val :: "json \<Rightarrow> real option" where
  "num_val (JInt i) = Some (of_int i)"
| "num_val (JFloat r) = Some r"
| "num_val (JBool b) = Some (if b then 1 else 0)"
| "num_val _ = None"

text \<open>\<open>x == y\<close> on parsed JSON: never raises. Two dicts are equal when they have the same
  keys with equal values.\<close>

fun py_eq :: "json \<Rightarrow> json \<Rightarrow> bool"
  and py_eq_list :: "json list \<Rightarrow> json list \<Rightarrow> bool"
  and py_eq_items :: "(ustr \<times> json) list \<Rightarrow> (ustr \<times> json) list \<Rightarrow> bool" where
  "py_eq (JStr a) (JStr b) = (a = b)"
| "py_eq JNull JNull = True"
| "py_eq (JArr xs) (JArr ys) = py_eq_list xs ys"
| "py_eq (JObj a) (JObj b) = (length a = length b \<and> py_eq_items a b)"
| "py_eq x y = (case (num_val x, num_val y) of (Some r, Some s) \<Rightarrow> r = s | _ \<Rightarrow> False)"
| "py_eq_list [] [] = True"
| "py_eq_list (x # xs) (y # ys) = (py_eq x y \<and> py_eq_list xs ys)"
| "py_eq_list _ _ = False"
| "py_eq_items [] b = True"
| "py_eq_items (kv # a) b =
     ((case map_of b (fst kv) of None \<Rightarrow> False | Some w \<Rightarrow> py_eq (snd kv) w) \<and> py_eq_items a b)"

text \<open>\<open>a < b\<close> on strings: by code point, the shorter string first on a common prefix.\<close>

fun str_lt :: "ustr \<Rightarrow> ustr \<Rightarrow> bool" where
  "str_lt [] [] = False"
| "str_lt [] (y # ys) = True"
| "str_lt (x # xs) [] = False"
| "str_lt (x # xs) (y # ys) = (x < y \<or> x = y \<and> str_lt xs ys)"

text \<open>\<open>x < y\<close> on parsed JSON: numbers with numbers, strings with strings, lists with
  lists (decided at the first pair of unequal elements); every other pairing is a
  \<open>TypeError\<close>.\<close>

fun py_lt :: "json \<Rightarrow> json \<Rightarrow> error + bool"
  and py_lt_list :: "json list \<Rightarrow> json list \<Rightarrow> error + bool" where
  "py_lt (JStr a) (JStr b) = Inr (str_lt a b)"
| "py_lt (JArr xs) (JArr ys) = py_lt_list xs ys"
| "py_lt x y = (case (num_val x, num_val y) of (Some r, Some s) \<Rightarrow> Inr (r < s) | _ \<Rightarrow> Inl TypeError)"
| "py_lt_list [] [] = Inr False"
| "py_lt_list [] (y # ys) = Inr True"
| "py_lt_list (x # xs) [] = Inr False"
| "py_lt_list (x # xs) (y # ys) = (if py_eq x y then py_lt_list xs ys else py_lt x y)"

text \<open>
  \<open>list.sort(key=...)\<close>: the keys are computed first, then the items are ordered by \<open><\<close>
  on the keys alone, and items with equal keys keep their order. The model is the
  insertion sort that CPython runs on short lists, with a linear search for the place:
  each item, from left to right, goes in front of the first item placed so far whose key
  is greater. A comparison that raises ends the sort.
\<close>

fun insert_by_key :: "json \<times> json \<Rightarrow> (json \<times> json) list \<Rightarrow> error + (json \<times> json) list" where
  "insert_by_key kx [] = Inr [kx]"
| "insert_by_key kx (ky # placed) =
     (case py_lt (fst kx) (fst ky) of
        Inl e \<Rightarrow> Inl e
      | Inr before \<Rightarrow>
          if before then Inr (kx # ky # placed)
          else (case insert_by_key kx placed of
                  Inl e \<Rightarrow> Inl e
                | Inr placed' \<Rightarrow> Inr (ky # placed')))"

fun insertion_sort :: "(json \<times> json) list \<Rightarrow> (json \<times> json) list \<Rightarrow> error + (json \<times> json) list" where
  "insertion_sort placed [] = Inr placed"
| "insertion_sort placed (kx # rest) =
     (case insert_by_key kx placed of
        Inl e \<Rightarrow> Inl e
      | Inr placed' \<Rightarrow> insertion_sort placed' rest)"

fun keyed :: "json list \<Rightarrow> error + (json \<times> json) list" where
  "keyed [] = Inr []"
| "keyed (c # cs) =
     (case id_key c of
        Inl e \<Rightarrow> Inl e
      | Inr k \<Rightarrow> (case keyed cs of Inl e \<Rightarrow> Inl e | Inr kcs \<Rightarrow> Inr ((k, c) # kcs)))"

definition sort_comments :: "json list \<Rightarrow> error + json list" where
  "sort_comments comments =
     (case keyed comments of
        Inl e \<Rightarrow> Inl e
      | Inr kcs \<Rightarrow>
          (case insertion_sort [] kcs of
             Inl e \<Rightarrow> Inl e
           | Inr ordered \<Rightarrow> Inr (map snd ordered)))"

text \<open>The id the specification sorts by: the number under \<open>id\<close>, and 0 when the key is
  missing, \<open>null\<close> or not a number.\<close>

definition id_number :: "json \<Rightarrow> real" where
  "id_number c =
     (case c of
        JObj entries \<Rightarrow>
          (case map_of entries (ascii ''id'') of
             None \<Rightarrow> 0
           | Some v \<Rightarrow> (case num_val v of None \<Rightarrow> 0 | Some r \<Rightarrow> r))
      | _ \<Rightarrow> 0)"

definition numeric_id :: "json \<Rightarrow> bool" where
  "numeric_id c =
     (case c of
        JObj entries \<Rightarrow>
          (case map_of entries (ascii ''id'') of
             None \<Rightarrow> True
           | Some JNull \<Rightarrow> True
           | Some v \<Rightarrow> num_val v \<noteq> None)
      | _ \<Rightarrow> False)"

section \<open>Writing the report of a directory\<close>

text \<open>
  A file opened with \<open>encoding='utf-8'\<close> takes text as code points. \<open>f.write(s)\<close> appends
  \<open>s\<close>, or raises \<open>UnicodeEncodeError\<close> (a \<open>ValueError\<close>) when \<open>s\<close> holds a surrogate (U+D800 to U+DFFF, which
  \<open>json.load\<close> produces for an unpaired escape); what was written before stays in the
  file.
\<close>

definition encodable :: "ustr \<Rightarrow> bool" where
  "encodable s = list_all (\<lambda>c. c < 55296 \<or> 57343 < c) s"

definition file_write :: "ustr \<Rightarrow> ustr \<Rightarrow> ustr \<times> error option" where
  "file_write written s = (if encodable s then (written @ s, None) else (written, Some ValueError))"

fun file_writes :: "ustr \<Rightarrow> ustr list \<Rightarrow> ustr \<times> error option" where
  "file_writes written [] = (written, None)"
| "file_writes written (s # rest) =
     (case file_write written s of
        (written', Some e) \<Rightarrow> (written', Some e)
      | (written', None) \<Rightarrow> file_writes written' rest)"

text \<open>The four lines of a comment, without their line breaks. The labels are \<open>Avtor\<close>,
  \<open>Data\<close>, \<open>Tekst\<close> and \<open>Ssylka\<close>; the defaults are \<open>Neizvestnyi avtor\<close>, \<open>Data neizvestna\<close>,
  the empty string and \<open>unknown\<close>.\<close>

definition comment_lines :: "builtins \<Rightarrow> json \<Rightarrow> error + ustr list" where
  "comment_lines rt comment =
     (case comment of
        JObj entries \<Rightarrow>
          (let author = dict_get entries (ascii ''author'')
                 (JStr [1053, 1077, 1080, 1079, 1074, 1077, 1089, 1090, 1085, 1099, 1081, 32,
                        1072, 1074, 1090, 1086, 1088]);
               datetime = dict_get entries (ascii ''datetime'')
                 (JStr [1044, 1072, 1090, 1072, 32, 1085, 1077, 1080, 1079, 1074, 1077, 1089,
                        1090, 1085, 1072]);
               text = dict_get entries (ascii ''text'') (JStr []);
               comment_id = dict_get entries (ascii ''id'') (JStr (ascii ''unknown''));
               article_url = dict_get entries (ascii ''article_url'') (JStr []);
               directory_name = dict_get entries (ascii ''directory_name'') (JStr [])
           in and_then (get_comment_url rt directory_name article_url (py_str rt comment_id))
                (\<lambda>comment_url.
                   Inr [[1040, 1074, 1090, 1086, 1088, 58, 32] @ py_str rt author,
                        [1044, 1072, 1090, 1072, 58, 32] @ py_str rt datetime,
                        [1058, 1077, 1082, 1089, 1090, 58, 32] @ py_str rt text,
                        [1057, 1089, 1099, 1083, 1082, 1072, 58, 32] @ comment_url]))
      | _ \<Rightarrow> Inl AttributeError)"

definition separator :: ustr where
  "separator = replicate 100 61"

text \<open>The body of the \<open>with open(...)\<close> block: \<open>n\<close> is \<open>len(comments)\<close>, \<open>idx\<close> the index of
  the comment at the head of the list.\<close>

fun write_loop :: "builtins \<Rightarrow> nat \<Rightarrow> nat \<Rightarrow> json list \<Rightarrow> ustr \<Rightarrow> ustr \<times> error option" where
  "write_loop rt n idx [] written = (written, None)"
| "write_loop rt n idx (comment # rest) written =
     (case comment_lines rt comment of
        Inl e \<Rightarrow> (written, Some e)
      | Inr ls \<Rightarrow>
          (case file_writes written
                  (map (\<lambda>l. l @ [10]) ls
                   @ (if int idx < int n - 1 then [separator @ [10]] else [])) of
             (written', Some e) \<Rightarrow> (written', Some e)
           | (written', None) \<Rightarrow> write_loop rt n (Suc idx) rest written'))"

definition write_comments :: "builtins \<Rightarrow> json list \<Rightarrow> ustr \<times> error option" where
  "write_comments rt comments = write_loop rt (length comments) 0 comments []"

text \<open>The lines of a text file.\<close>

definition text_lines :: "ustr \<Rightarrow> ustr list" where
  "text_lines s = (let parts = split_on [10] s in if last parts = [] then butlast parts else parts)"

section \<open>The run (\<open>main\<close>)\<close>

text \<open>
  An input directory as the run finds it: its path and \<open>Path.name\<close>, whether it exists and
  is a directory, the files \<open>glob('*.json')\<close> lists with what reading each gives, and
  whether a file can be opened for writing in it.
\<close>

record input_dir =
  dir_path :: ustr
  dir_name :: ustr
  is_dir :: bool
  json_files :: "json_file list"
  writable :: bool

text \<open>\<open>grouped_positive_comments[directory].extend(positive_comments)\<close> on the
  \<open>defaultdict\<close>: keyed by the path, a new key goes last.\<close>

fun extend_group ::
    "input_dir \<Rightarrow> json list \<Rightarrow> (input_dir \<times> json list) list \<Rightarrow> (input_dir \<times> json list) list" where
  "extend_group d cs [] = [(d, cs)]"
| "extend_group d cs (g # groups) =
     (if dir_path (fst g) = dir_path d then (fst g, snd g @ cs) # groups
      else g # extend_group d cs groups)"

text \<open>The processing loop. The state is the groups and the console output; an exception
  out of \<open>process_json_file\<close> ends the run before anything is written.\<close>

fun process_files ::
    "builtins \<Rightarrow> SentimentAnalyzer \<Rightarrow> input_dir \<Rightarrow> json_file list
      \<Rightarrow> (input_dir \<times> json list) list \<times> ustr list
      \<Rightarrow> error + (input_dir \<times> json list) list \<times> ustr list" where
  "process_files rt analyzer directory [] state = Inr state"
| "process_files rt analyzer directory (file_path # rest) state =
     (case process_json_file rt file_path analyzer (dir_name directory) of
        (printed, Inl e) \<Rightarrow> Inl e
      | (printed, Inr positive_comments) \<Rightarrow>
          process_files rt analyzer directory rest
            (if positive_comments \<noteq> []
             then extend_group directory positive_comments (fst state)
             else fst state,
             snd state @ printed))"

fun process_dirs ::
    "builtins \<Rightarrow> SentimentAnalyzer \<Rightarrow> input_dir list
      \<Rightarrow> (input_dir \<times> json list) list \<times> ustr list
      \<Rightarrow> error + (input_dir \<times> json list) list \<times> ustr list" where
  "process_dirs rt analyzer [] state = Inr state"
| "process_dirs rt analyzer (directory # rest) state =
     (if \<not> is_dir directory then process_dirs rt analyzer rest state
      else (case process_files rt analyzer directory (json_files directory) state of
              Inl e \<Rightarrow> Inl e
            | Inr state' \<Rightarrow> process_dirs rt analyzer rest state'))"

text \<open>The files written: directory path, file name and text, in the order of writing.\<close>

record report_file =
  in_dir :: ustr
  report_name :: ustr
  report_text :: ustr

fun write_reports ::
    "builtins \<Rightarrow> (input_dir \<times> json list) list \<Rightarrow> report_file list \<Rightarrow> report_file list \<times> error option" where
  "write_reports rt [] files = (files, None)"
| "write_reports rt (g # groups) files =
     (case sort_comments (snd g) of
        Inl e \<Rightarrow> (files, Some e)
      | Inr comments \<Rightarrow>
          if \<not> writable (fst g) then (files, Some OSError)
          else (case write_comments rt comments of
                  (written, err) \<Rightarrow>
                    (let files' = files @ [\<lparr> in_dir = dir_path (fst g),
                                            report_name = dir_name (fst g) @ ascii ''_positive_comments.txt'',
                                            report_text = written \<rparr>]
                     in (case err of
                           Some e \<Rightarrow> (files', Some e)
                         | None \<Rightarrow> write_reports rt groups files'))))"

text \<open>The run: the files written and the exit code. The analyzer is \<open>None\<close> when loading
  the model fails (\<open>sys.exit(1)\<close>); the run also ends with code 1 when no JSON file is found
  and when an exception reaches the top level.\<close>

record outcome =
  files_written :: "report_file list"
  exit_code :: int

definition count_files :: "input_dir list \<Rightarrow> nat" where
  "count_files dirs = sum_list (map (\<lambda>d. length (json_files d)) (filter is_dir dirs))"

definition main :: "builtins \<Rightarrow> input_dir list \<Rightarrow> SentimentAnalyzer option \<Rightarrow> outcome" where
  "main rt input_dirs loaded_analyzer =
     (if count_files input_dirs = 0
      then \<lparr> files_written = [], exit_code = 1 \<rparr>
      else (case loaded_analyzer of
              None \<Rightarrow> \<lparr> files_written = [], exit_code = 1 \<rparr>
            | Some analyzer \<Rightarrow>
                (case process_dirs rt analyzer input_dirs ([], []) of
                   Inl e \<Rightarrow> \<lparr> files_written = [], exit_code = 1 \<rparr>
                 | Inr (groups, printed) \<Rightarrow>
                     (case write_reports rt groups [] of
                        (files, Some e) \<Rightarrow> \<lparr> files_written = files, exit_code = 1 \<rparr>
                      | (files, None) \<Rightarrow> \<lparr> files_written = files, exit_code = 0 \<rparr>))))"

text \<open>A directory produced no accepted comment: none of its files gave a non-empty
  list.\<close>

definition no_accepted :: "builtins \<Rightarrow> SentimentAnalyzer \<Rightarrow> input_dir \<Rightarrow> bool" where
  "no_accepted rt analyzer d =
     list_all (\<lambda>f. case snd (process_json_file rt f analyzer (dir_name d)) of
                     Inl e \<Rightarrow> True
                   | Inr positive_comments \<Rightarrow> positive_comments = [])
       (json_files d)"

section \<open>Values for the concrete runs\<close>

text \<open>An analyzer whose classifier calls every text \<open>positive\<close> with score 0.9, a comment
  with a field the script does not know, a document holding it beside a comment of an
  excluded author, and a file that cannot be parsed.\<close>

definition example_analyzer :: SentimentAnalyzer where
  "example_analyzer =
     \<lparr> config = \<lparr> POSITIVE_THRESHOLD = 1 / 2, EXCLUDE_AUTHORS = {ascii ''empenoso''},
                  MIN_COMMENT_LENGTH = 5 \<rparr>,
       model = (\<lambda>t. Inr [1 / 10, 1 / 5, 9 / 10]),
       id2label = [0 \<mapsto> ascii ''negative'', 1 \<mapsto> ascii ''neutral'', 2 \<mapsto> ascii ''positive''] \<rparr>"

definition example_comment :: "(ustr \<times> json) list" where
  "example_comment =
     [(ascii ''id'', JInt 7), (ascii ''author'', JStr (ascii ''ann'')),
      (ascii ''text'', JStr (ascii ''great article'')), (ascii ''likes'', JInt 3)]"

definition example_file :: json_file where
  "example_file =
     \<lparr> file_name = ascii ''a.json'',
       content = Parsed (JObj
         [(ascii ''url'', JStr (ascii ''https://habr.com/ru/articles/1/'')),
          (ascii ''comments'', JArr
             [JObj example_comment,
              JObj [(ascii ''id'', JInt 8), (ascii ''author'', JStr (ascii ''empenoso'')),
                    (ascii ''text'', JStr (ascii ''thanks a lot''))]])]) \<rparr>"

definition broken_file :: json_file where
  "broken_file = \<lparr> file_name = ascii ''b.json'', content = Unreadable (ascii ''Expecting value'') \<rparr>"

text \<open>A comment whose text has a second line made of 100 equals signs, and two plain
  comments.\<close>

definition two_line_comment :: json where
  "two_line_comment =
     JObj [(ascii ''author'', JStr (ascii ''ann'')),
           (ascii ''text'', JStr (ascii ''ok'' @ [10] @ separator))]"

definition plain_comments :: "json list" where
  "plain_comments =
     [JObj [(ascii ''author'', JStr (ascii ''ann'')), (ascii ''text'', JStr (ascii ''thanks''))],
      JObj [(ascii ''author'', JStr (ascii ''bob'')), (ascii ''text'', JStr (ascii ''super'')),
            (ascii ''id'', JInt 3)]]"

text \<open>Two input directories: one with the broken file and the example file, one with
  the broken file alone.\<close>

definition habr_dir :: input_dir where
  "habr_dir =
     \<lparr> dir_path = ascii ''./habr_comments'', dir_name = ascii ''habr_comments'', is_dir = True,
       json_files = [broken_file, example_file], writable = True \<rparr>"

definition tj_dir :: input_dir where
  "tj_dir =
     \<lparr> dir_path = ascii ''./t-j_comments'', dir_name = ascii ''t-j_comments'', is_dir = True,
       json_files = [broken_file], writable = True \<rparr>"

section \<open>Facts about the string builtins\<close>

lemma split_on_nonempty: "split_on sep s \<noteq> []"
  by (induction sep s rule: split_on.induct) (auto split: list.splits)





lemma split_on_at_first:
  assumes "sep \<noteq> []" "\<not> sublist sep (pre @ butlast sep)"
  shows "split_on sep (pre @ sep @ post) = pre # split_on sep post"
  using assms
proof (induction pre)
  case Nil
  then show ?case by (cases sep) auto
next
  case (Cons c pre)
  have np: "\<not> prefix sep (c # pre @ sep @ post)"
  proof
    assume p: "prefix sep (c # pre @ sep @ post)"
    have "c # pre @ sep @ post = (c # pre @ butlast sep) @ (last sep # post)"
      using Cons.prems(1) by simp
    with p have "prefix sep ((c # pre @ butlast sep) @ (last sep # post))" by simp
    moreover have "length sep \<le> length (c # pre @ butlast sep)" by simp
    ultimately have "prefix sep (c # pre @ butlast sep)"
      by (metis prefix_length_prefix prefix_append prefix_order.order_refl prefixI)
    then show False using Cons.prems(2) by auto
  qed
  have "\<not> sublist sep (pre @ butlast sep)"
    using Cons.prems(2) by (auto simp: sublist_Cons_right)
  with Cons.IH Cons.prems(1) have "split_on sep (pre @ sep @ post) = pre # split_on sep post" by simp
  with np show ?case by simp
qed


section \<open>URL synthesis\<close>

text \<open>
  C2. For a directory name with \<open>t-j\<close> or \<open>tj\<close> the script means to drop a trailing slash
  and a \<open>#\<close>-anchor of the article URL before it appends \<open>/#c<id>\<close>. It strips the
  slashes first and cuts the anchor afterwards, so a slash that stands before the anchor
  stays: on \<open>https://example.com/article/#section\<close> the result has two slashes before
  \<open>#c3\<close>, not the one the specification gives.
\<close>

theorem get_comment_url_tj_anchor_after_slash:
  "get_comment_url builtins_basic (JStr (ascii ''t-j_comments''))
     (JStr (ascii ''https://example.com/article/#section'')) (ascii ''3'')
   = Inr (ascii ''https://example.com/article//#c3'')"
  by (simp add: get_comment_url_def and_then_def builtins_basic_def lower_char_def ascii_def
        sublist_Cons_right py_split_def py_first_def py_rstrip_def)




section \<open>The positivity decision\<close>

text \<open>\<open>argmax\<close> returns the first index that holds the greatest score, and that index is
  unique.\<close>

lemma argmax_from_spec:
  assumes "bi < i" "length pre = i" "pre ! bi = best"
    "\<forall>j<i. pre ! j \<le> best" "\<forall>j<bi. pre ! j < best"
  shows "argmax_from best bi i xs < length (pre @ xs)
       \<and> (\<forall>j<length (pre @ xs). (pre @ xs) ! j \<le> (pre @ xs) ! argmax_from best bi i xs)
       \<and> (\<forall>j<argmax_from best bi i xs. (pre @ xs) ! j < (pre @ xs) ! argmax_from best bi i xs)"
  using assms
proof (induction xs arbitrary: best bi i pre)
  case Nil
  then show ?case by auto
next
  case (Cons x xs)
  show ?case
  proof (cases "best < x")
    case True
    have "argmax_from x i (Suc i) xs < length ((pre @ [x]) @ xs)
       \<and> (\<forall>j<length ((pre @ [x]) @ xs). ((pre @ [x]) @ xs) ! j \<le> ((pre @ [x]) @ xs) ! argmax_from x i (Suc i) xs)
       \<and> (\<forall>j<argmax_from x i (Suc i) xs. ((pre @ [x]) @ xs) ! j < ((pre @ [x]) @ xs) ! argmax_from x i (Suc i) xs)"
    proof (rule Cons.IH)
      show "i < Suc i" by simp
      show "length (pre @ [x]) = Suc i" using Cons.prems by simp
      show "(pre @ [x]) ! i = x" using Cons.prems by (simp add: nth_append)
      show "\<forall>j<Suc i. (pre @ [x]) ! j \<le> x"
        using Cons.prems True by (auto simp: nth_append less_Suc_eq intro: order_trans less_imp_le)
      show "\<forall>j<i. (pre @ [x]) ! j < x"
        using Cons.prems True by (auto simp: nth_append intro: le_less_trans)
    qed
    then show ?thesis using True by simp
  next
    case False
    have "argmax_from best bi (Suc i) xs < length ((pre @ [x]) @ xs)
       \<and> (\<forall>j<length ((pre @ [x]) @ xs). ((pre @ [x]) @ xs) ! j \<le> ((pre @ [x]) @ xs) ! argmax_from best bi (Suc i) xs)
       \<and> (\<forall>j<argmax_from best bi (Suc i) xs. ((pre @ [x]) @ xs) ! j < ((pre @ [x]) @ xs) ! argmax_from best bi (Suc i) xs)"
    proof (rule Cons.IH)
      show "bi < Suc i" using Cons.prems by simp
      show "length (pre @ [x]) = Suc i" using Cons.prems by simp
      show "(pre @ [x]) ! bi = best" using Cons.prems by (simp add: nth_append)
      show "\<forall>j<Suc i. (pre @ [x]) ! j \<le> best"
        using Cons.prems False by (auto simp: nth_append less_Suc_eq)
      show "\<forall>j<bi. (pre @ [x]) ! j < best"
        using Cons.prems by (auto simp: nth_append)
    qed
    then show ?thesis using False by simp
  qed
qed

lemma argmax_first_maximum:
  assumes "argmax proba = Inr i"
  shows "i < length proba \<and> (\<forall>j<length proba. proba ! j \<le> proba ! i)
       \<and> (\<forall>j<i. proba ! j < proba ! i)"
proof (cases proba)
  case Nil
  with assms show ?thesis by (simp add: argmax_def)
next
  case (Cons x xs)
  with assms have i: "i = argmax_from x 0 1 xs" by (simp add: argmax_def)
  have "argmax_from x 0 1 xs < length ([x] @ xs)
       \<and> (\<forall>j<length ([x] @ xs). ([x] @ xs) ! j \<le> ([x] @ xs) ! argmax_from x 0 1 xs)
       \<and> (\<forall>j<argmax_from x 0 1 xs. ([x] @ xs) ! j < ([x] @ xs) ! argmax_from x 0 1 xs)"
    by (rule argmax_from_spec) auto
  then show ?thesis using i Cons by simp
qed

lemma first_maximum_unique:
  fixes proba :: "real list"
  assumes "i < length proba" "\<forall>j<length proba. proba ! j \<le> proba ! i" "\<forall>j<i. proba ! j < proba ! i"
    and "k < length proba" "\<forall>j<length proba. proba ! j \<le> proba ! k" "\<forall>j<k. proba ! j < proba ! k"
  shows "i = k"
proof (rule ccontr)
  assume "i \<noteq> k"
  then consider "i < k" | "k < i" by linarith
  then show False
  proof cases
    case 1
    with assms have "proba ! i < proba ! k" "proba ! k \<le> proba ! i" by auto
    then show False by simp
  next
    case 2
    with assms have "proba ! k < proba ! i" "proba ! i \<le> proba ! k" by auto
    then show False by simp
  qed
qed

lemma argmax_eqI:
  assumes "i < length proba" "\<forall>j<length proba. proba ! j \<le> proba ! i" "\<forall>j<i. proba ! j < proba ! i"
  shows "argmax proba = Inr i"
proof -
  from assms(1) obtain x xs where "proba = x # xs" by (cases proba) auto
  then obtain k where k: "argmax proba = Inr k" by (simp add: argmax_def)
  from argmax_first_maximum[OF k] assms have "i = k"
    by (intro first_maximum_unique[of i proba k]) auto
  with k show ?thesis by simp
qed

text \<open>
  C1. An excluded author gives \<open>False\<close>, whatever the text and the classifier; a text
  with fewer characters than the minimum gives \<open>False\<close>. Otherwise, for the score vector
  the classifier returns and the label of its first greatest score (the index-2 score
  must exist when that label is \<open>positive\<close>), the result is \<open>True\<close> exactly when the label is
  \<open>positive\<close> and the score at index 2 reaches the threshold, or the label is \<open>neutral\<close>
  and the lower-cased text contains one of the praise keywords.
\<close>

theorem is_positive_comment_decision:
  "(author \<in> EXCLUDE_AUTHORS (config self) \<longrightarrow>
      is_positive_comment rt self (JStr text) (JStr author) = Inr False)
   \<and> (int (length text) < MIN_COMMENT_LENGTH (config self) \<longrightarrow>
      is_positive_comment rt self (JStr text) (JStr author) = Inr False)
   \<and> (author \<notin> EXCLUDE_AUTHORS (config self)
      \<and> \<not> int (length text) < MIN_COMMENT_LENGTH (config self)
      \<and> model self (JStr text) = Inr proba
      \<and> i < length proba \<and> (\<forall>j<length proba. proba ! j \<le> proba ! i) \<and> (\<forall>j<i. proba ! j < proba ! i)
      \<and> id2label self i = Some label
      \<and> (label = ascii ''positive'' \<longrightarrow> 2 < length proba) \<longrightarrow>
      is_positive_comment rt self (JStr text) (JStr author)
        = Inr (label = ascii ''positive'' \<and> POSITIVE_THRESHOLD (config self) \<le> proba ! 2
               \<or> label = ascii ''neutral''
                 \<and> (\<exists>keyword \<in> set praise_keywords. sublist keyword (str_lower rt text))))"
proof (intro conjI impI)
  assume "author \<in> EXCLUDE_AUTHORS (config self)"
  then show "is_positive_comment rt self (JStr text) (JStr author) = Inr False"
    by (simp add: is_positive_comment_def and_then_def)
next
  assume "int (length text) < MIN_COMMENT_LENGTH (config self)"
  then show "is_positive_comment rt self (JStr text) (JStr author) = Inr False"
    by (simp add: is_positive_comment_def and_then_def)
next
  assume a: "author \<notin> EXCLUDE_AUTHORS (config self)
      \<and> \<not> int (length text) < MIN_COMMENT_LENGTH (config self)
      \<and> model self (JStr text) = Inr proba
      \<and> i < length proba \<and> (\<forall>j<length proba. proba ! j \<le> proba ! i) \<and> (\<forall>j<i. proba ! j < proba ! i)
      \<and> id2label self i = Some label
      \<and> (label = ascii ''positive'' \<longrightarrow> 2 < length proba)"
  then have am: "argmax proba = Inr i" by (intro argmax_eqI) auto
  have ne: "ascii ''positive'' \<noteq> ascii ''neutral''" by (simp add: ascii_def)
  show "is_positive_comment rt self (JStr text) (JStr author)
        = Inr (label = ascii ''positive'' \<and> POSITIVE_THRESHOLD (config self) \<le> proba ! 2
               \<or> label = ascii ''neutral''
                 \<and> (\<exists>keyword \<in> set praise_keywords. sublist keyword (str_lower rt text)))"
    using a am ne
    by (auto simp: is_positive_comment_def and_then_def list_ex_iff)
qed

text \<open>The theorem on three runs: a confident \<open>positive\<close>, a \<open>neutral\<close> with the keyword
  \<open>spasibo\<close> written in capitals, and an excluded author.\<close>

theorem is_positive_comment_decision_witness:
  "is_positive_comment builtins_basic
     \<lparr> config = \<lparr> POSITIVE_THRESHOLD = 1 / 2, EXCLUDE_AUTHORS = {ascii ''empenoso''},
                  MIN_COMMENT_LENGTH = 5 \<rparr>,
       model = (\<lambda>t. Inr [1 / 10, 1 / 5, 9 / 10]),
       id2label = [0 \<mapsto> ascii ''negative'', 1 \<mapsto> ascii ''neutral'', 2 \<mapsto> ascii ''positive''] \<rparr>
     (JStr (ascii ''great article'')) (JStr (ascii ''ann'')) = Inr True
   \<and> is_positive_comment builtins_basic
     \<lparr> config = \<lparr> POSITIVE_THRESHOLD = 1, EXCLUDE_AUTHORS = {ascii ''empenoso''},
                  MIN_COMMENT_LENGTH = 5 \<rparr>,
       model = (\<lambda>t. Inr [1 / 10, 9 / 10, 1 / 5]),
       id2label = [0 \<mapsto> ascii ''negative'', 1 \<mapsto> ascii ''neutral'', 2 \<mapsto> ascii ''positive''] \<rparr>
     (JStr [1057, 1055, 1040, 1057, 1048, 1041, 1054, 33]) (JStr (ascii ''ann'')) = Inr True
   \<and> is_positive_comment builtins_basic
     \<lparr> config = \<lparr> POSITIVE_THRESHOLD = 1 / 2, EXCLUDE_AUTHORS = {ascii ''empenoso''},
                  MIN_COMMENT_LENGTH = 5 \<rparr>,
       model = (\<lambda>t. Inr [1 / 10, 1 / 5, 9 / 10]),
       id2label = [0 \<mapsto> ascii ''negative'', 1 \<mapsto> ascii ''neutral'', 2 \<mapsto> ascii ''positive''] \<rparr>
     (JStr (ascii ''great article'')) (JStr (ascii ''empenoso'')) = Inr False"
proof -
  let ?labels = "[0 \<mapsto> ascii ''negative'', 1 \<mapsto> ascii ''neutral'', 2 \<mapsto> ascii ''positive'']"
  let ?c1 = "\<lparr> POSITIVE_THRESHOLD = 1 / 2, EXCLUDE_AUTHORS = {ascii ''empenoso''}, MIN_COMMENT_LENGTH = 5 \<rparr>"
  let ?c2 = "\<lparr> POSITIVE_THRESHOLD = 1, EXCLUDE_AUTHORS = {ascii ''empenoso''}, MIN_COMMENT_LENGTH = 5 \<rparr>"
  let ?a1 = "\<lparr> config = ?c1, model = (\<lambda>t. Inr [1 / 10, 1 / 5, 9 / 10]), id2label = ?labels \<rparr>"
  let ?a2 = "\<lparr> config = ?c2, model = (\<lambda>t. Inr [1 / 10, 9 / 10, 1 / 5]), id2label = ?labels \<rparr>"
  note t1 = is_positive_comment_decision[of "ascii ''ann''" ?a1 builtins_basic "ascii ''great article''"
      "[1 / 10, 1 / 5, 9 / 10]" 2 "ascii ''positive''"]
  note t2 = is_positive_comment_decision[of "ascii ''ann''" ?a2 builtins_basic
      "[1057, 1055, 1040, 1057, 1048, 1041, 1054, 33]" "[1 / 10, 9 / 10, 1 / 5]" 1 "ascii ''neutral''"]
  note t3 = is_positive_comment_decision[of "ascii ''empenoso''" ?a1 builtins_basic "ascii ''great article''"
      "[]" 0 "[]"]
  have "is_positive_comment builtins_basic ?a1 (JStr (ascii ''great article'')) (JStr (ascii ''ann''))
      = Inr (ascii ''positive'' = ascii ''positive''
               \<and> POSITIVE_THRESHOLD (config ?a1) \<le> [1 / 10, 1 / 5, 9 / 10] ! 2
             \<or> ascii ''positive'' = ascii ''neutral''
               \<and> (\<exists>keyword \<in> set praise_keywords.
                     sublist keyword (str_lower builtins_basic (ascii ''great article''))))"
    by (rule t1[THEN conjunct2, THEN conjunct2, THEN mp])
       (simp add: ascii_def numeral_2_eq_2 All_less_Suc)
  then have r1: "is_positive_comment builtins_basic ?a1 (JStr (ascii ''great article'')) (JStr (ascii ''ann'')) = Inr True"
    by simp
  have kw: "\<exists>keyword \<in> set praise_keywords. sublist keyword
        (str_lower builtins_basic [1057, 1055, 1040, 1057, 1048, 1041, 1054, 33])"
    by (simp add: praise_keywords_def builtins_basic_def lower_char_def sublist_Cons_right)
  have "is_positive_comment builtins_basic ?a2
       (JStr [1057, 1055, 1040, 1057, 1048, 1041, 1054, 33]) (JStr (ascii ''ann''))
      = Inr (ascii ''neutral'' = ascii ''positive''
               \<and> POSITIVE_THRESHOLD (config ?a2) \<le> [1 / 10, 9 / 10, 1 / 5] ! 2
             \<or> ascii ''neutral'' = ascii ''neutral''
               \<and> (\<exists>keyword \<in> set praise_keywords.
                     sublist keyword (str_lower builtins_basic [1057, 1055, 1040, 1057, 1048, 1041, 1054, 33])))"
    by (rule t2[THEN conjunct2, THEN conjunct2, THEN mp])
       (simp add: ascii_def All_less_Suc)
  then have r2: "is_positive_comment builtins_basic ?a2
       (JStr [1057, 1055, 1040, 1057, 1048, 1041, 1054, 33]) (JStr (ascii ''ann'')) = Inr True"
    using kw by simp
  have r3: "is_positive_comment builtins_basic ?a1 (JStr (ascii ''great article'')) (JStr (ascii ''empenoso'')) = Inr False"
    by (rule t3[THEN conjunct1, THEN mp]) simp
  show ?thesis using r1 r2 r3 by simp
qed

text \<open>
  C5. A text shorter than the minimum gives \<open>False\<close> before the classifier is reached:
  two analyzers with the same settings and any two classifiers and label tables agree
  on it, and the answer is \<open>False\<close>. This holds for every author, excluded or not.
\<close>

theorem is_positive_comment_short_text:
  assumes "int (length text) < MIN_COMMENT_LENGTH cfg"
  shows "is_positive_comment rt \<lparr> config = cfg, model = oracle1, id2label = labels1 \<rparr> (JStr text) (JStr author) = Inr False
       \<and> is_positive_comment rt \<lparr> config = cfg, model = oracle2, id2label = labels2 \<rparr> (JStr text) (JStr author) = Inr False"
  using assms by (simp add: is_positive_comment_def and_then_def)

text \<open>The theorem on a two-character text, with a classifier that answers and one that
  raises.\<close>

theorem is_positive_comment_short_text_witness:
  "int (length (ascii ''ok'')) < 5
   \<and> is_positive_comment builtins_basic
        \<lparr> config = \<lparr> POSITIVE_THRESHOLD = 0, EXCLUDE_AUTHORS = {}, MIN_COMMENT_LENGTH = 5 \<rparr>,
          model = (\<lambda>t. Inr [0, 0, 1]), id2label = [2 \<mapsto> ascii ''positive''] \<rparr>
        (JStr (ascii ''ok'')) (JStr (ascii ''ann'')) = Inr False
   \<and> is_positive_comment builtins_basic
        \<lparr> config = \<lparr> POSITIVE_THRESHOLD = 0, EXCLUDE_AUTHORS = {}, MIN_COMMENT_LENGTH = 5 \<rparr>,
          model = (\<lambda>t. Inl RuntimeError), id2label = Map.empty \<rparr>
        (JStr (ascii ''ok'')) (JStr (ascii ''ann'')) = Inr False"
proof -
  have h: "int (length (ascii ''ok'')) < MIN_COMMENT_LENGTH
      \<lparr> POSITIVE_THRESHOLD = 0, EXCLUDE_AUTHORS = {}, MIN_COMMENT_LENGTH = 5 \<rparr>"
    by (simp add: ascii_def)
  from is_positive_comment_short_text[OF h, of builtins_basic "\<lambda>t. Inr [0, 0, 1]"
      "[2 \<mapsto> ascii ''positive'']" "ascii ''ann''" "\<lambda>t. Inl RuntimeError" Map.empty] h
  show ?thesis by simp
qed

section \<open>The excluded authors\<close>

text \<open>What \<open>split\<close> and \<open>strip\<close> return: joining the parts with the separator gives the
  string back, no part contains the separator, and a stripped string is the middle of
  the original, between two runs of stripped characters, with neither end in the
  stripped set.\<close>

lemma py_join_split_on: "py_join sep (split_on sep s) = s"
proof (induction sep s rule: split_on.induct)
  case (1 sep)
  then show ?case by simp
next
  case (2 sep c cs)
  show ?case
  proof (cases "sep \<noteq> [] \<and> prefix sep (c # cs)")
    case True
    then have td: "sep @ drop (length sep) (c # cs) = c # cs"
      by (metis append_eq_conv_conj prefix_def)
    obtain q qs where q: "split_on sep (drop (length sep) (c # cs)) = q # qs"
      using split_on_nonempty[of sep "drop (length sep) (c # cs)"]
      by (cases "split_on sep (drop (length sep) (c # cs))") auto
    have ih: "py_join sep (q # qs) = drop (length sep) (c # cs)"
      using 2(1)[OF True] q by simp
    have "split_on sep (c # cs) = [] # q # qs" using True q by simp
    then have "py_join sep (split_on sep (c # cs)) = sep @ py_join sep (q # qs)" by simp
    then show ?thesis using ih td by simp
  next
    case False
    obtain p ps where p: "split_on sep cs = p # ps"
      using split_on_nonempty[of sep cs] by (cases "split_on sep cs") auto
    have "py_join sep (p # ps) = cs" using 2(2)[OF False] p by simp
    then have "py_join sep ((c # p) # ps) = c # cs" by (cases ps) auto
    then show ?thesis using False p by auto
  qed
qed

lemma split_on_hd_prefix: "prefix (hd (split_on sep s)) s"
proof (induction sep s rule: split_on.induct)
  case (1 sep)
  then show ?case by simp
next
  case (2 sep c cs)
  then show ?case by (auto split: list.splits simp: split_on_nonempty)
qed

lemma split_on_parts_no_sep:
  assumes "sep \<noteq> []" "p \<in> set (split_on sep s)"
  shows "\<not> sublist sep p"
  using assms
proof (induction sep s arbitrary: p rule: split_on.induct)
  case (1 sep)
  then show ?case by simp
next
  case (2 sep c cs)
  show ?case
  proof (cases "prefix sep (c # cs)")
    case True
    with 2(3,4) have "p = [] \<or> p \<in> set (split_on sep (drop (length sep) (c # cs)))" by auto
    then show ?thesis
    proof
      assume "p = []" then show ?thesis using 2(3) by simp
    next
      assume "p \<in> set (split_on sep (drop (length sep) (c # cs)))"
      then show ?thesis using 2(1)[OF conjI[OF 2(3) True] 2(3)] by simp
    qed
  next
    case False
    then have np: "\<not> (sep \<noteq> [] \<and> prefix sep (c # cs))" by simp
    obtain q qs where q: "split_on sep cs = q # qs"
      using split_on_nonempty[of sep cs] by (cases "split_on sep cs") auto
    with False 2(4) have "p = c # q \<or> p \<in> set qs" by auto
    then show ?thesis
    proof
      assume pc: "p = c # q"
      have "prefix q cs" using split_on_hd_prefix[of sep cs] q by simp
      then have pre: "prefix (c # q) (c # cs)" by simp
      have "\<not> prefix sep (c # q)"
      proof
        assume "prefix sep (c # q)"
        then have "prefix sep (c # cs)" using pre by (rule prefix_order.trans)
        with False show False by simp
      qed
      moreover have "\<not> sublist sep q" using 2(2)[OF np 2(3), of q] q by simp
      ultimately show ?thesis using pc by (simp add: sublist_Cons_right)
    next
      assume "p \<in> set qs"
      then show ?thesis using 2(2)[OF np 2(3), of p] q by simp
    qed
  qed
qed

lemma sublist_single: "sublist [x] p \<longleftrightarrow> x \<in> set p"
  by (induction p) (auto simp: sublist_Cons_right)

lemma rev_dropWhile_takeWhile:
  "m = rev (dropWhile P (rev m)) @ rev (takeWhile P (rev m))"
  by (metis rev_append rev_rev_ident takeWhile_dropWhile_id)

lemma py_strip_decompose:
  "\<exists>l r. s = l @ py_strip s chars @ r \<and> set l \<subseteq> set chars \<and> set r \<subseteq> set chars"
proof -
  let ?P = "\<lambda>c. c \<in> set chars"
  let ?m = "dropWhile ?P s"
  have 1: "s = takeWhile ?P s @ ?m" by simp
  have 2: "?m = py_strip s chars @ rev (takeWhile ?P (rev ?m))"
    using rev_dropWhile_takeWhile[of ?m ?P]
    by (simp add: py_strip_def py_rstrip_def py_lstrip_def)
  have 3: "set (takeWhile ?P s) \<subseteq> set chars" by (auto dest: set_takeWhileD)
  have 4: "set (rev (takeWhile ?P (rev ?m))) \<subseteq> set chars" by (auto dest: set_takeWhileD)
  from 1 2 have "s = takeWhile ?P s @ py_strip s chars @ rev (takeWhile ?P (rev ?m))" by simp
  with 3 4 show ?thesis by blast
qed

lemma py_strip_ends:
  assumes "py_strip s chars \<noteq> []"
  shows "hd (py_strip s chars) \<notin> set chars \<and> last (py_strip s chars) \<notin> set chars"
proof -
  let ?P = "\<lambda>c. c \<in> set chars"
  let ?m = "dropWhile ?P s"
  let ?r = "dropWhile ?P (rev ?m)"
  have st: "py_strip s chars = rev ?r" by (simp add: py_strip_def py_rstrip_def py_lstrip_def)
  with assms have rne: "?r \<noteq> []" by simp
  then have "\<not> ?P (hd ?r)" by (rule hd_dropWhile)
  then have l: "last (py_strip s chars) \<notin> set chars" using st rne by (simp add: last_rev)
  have m: "?m = rev ?r @ rev (takeWhile ?P (rev ?m))"
    by (rule rev_dropWhile_takeWhile)
  have mne: "?m \<noteq> []"
    using m rne by (metis append_is_Nil_conv rev_is_Nil_conv)
  then have "\<not> ?P (hd ?m)" by (rule hd_dropWhile)
  moreover have "hd ?m = hd (rev ?r)" using m rne by (metis hd_append2 rev_is_Nil_conv)
  ultimately have "hd (py_strip s chars) \<notin> set chars" using st by simp
  with l show ?thesis by simp
qed

lemma py_strip_subset: "set (py_strip s chars) \<subseteq> set s"
  using py_strip_decompose[of s chars] by (metis Un_iff set_append subsetI)

text \<open>
  C8, the claim as stated fails. On the setting \<open>"a", "b"\<close> (with its quotes) the script
  keeps a quote on each name, because only the whole string loses quotes and only the
  elements lose whitespace; trimming both from both, as the specification words it,
  gives the bare names.
\<close>

theorem exclude_authors_quoted_elements:
  "exclude_authors [34, 97, 34, 44, 32, 34, 98, 34] = {[97, 34], [34, 98]}
   \<and> spec_exclude_authors [34, 97, 34, 44, 32, 34, 98, 34] = {[97], [98]}
   \<and> [34, 98] \<notin> spec_exclude_authors [34, 97, 34, 44, 32, 34, 98, 34]"
proof -
  have core: "py_strip (py_strip [34, 97, 34, 44, 32, 34, 98, 34] [34]) [39]
      = [97, 34, 44, 32, 34, 98]"
    by (simp add: py_strip_def py_lstrip_def py_rstrip_def)
  have parts: "py_split [97, 34, 44, 32, 34, 98] (ascii '','') = [[97, 34], [32, 34, 98]]"
    by (simp add: py_split_def ascii_def)
  have ws: "py_strip_ws [97, 34] = [97, 34]" "py_strip_ws [32, 34, 98] = [34, 98]"
    by (simp_all add: py_strip_ws_def py_strip_def py_lstrip_def py_rstrip_def whitespace_def)
  have fl: "filter (\<lambda>author. py_strip_ws author \<noteq> []) [[97, 34], [32, 34, 98]]
      = [[97, 34], [32, 34, 98]]"
    by (simp add: ws)
  have mp: "map py_strip_ws [[97, 34], [32, 34, 98]] = [[97, 34], [34, 98]]"
    by (simp add: ws)
  have 1: "exclude_authors [34, 97, 34, 44, 32, 34, 98, 34] = {[97, 34], [34, 98]}"
    unfolding exclude_authors_def Let_def core parts fl mp by simp
  have score: "spec_trim [34, 97, 34, 44, 32, 34, 98, 34] = [97, 34, 44, 32, 34, 98]"
    by (simp add: spec_trim_def py_strip_def py_lstrip_def py_rstrip_def whitespace_def)
  have st: "spec_trim [97, 34] = [97]" "spec_trim [32, 34, 98] = [98]"
    by (simp_all add: spec_trim_def py_strip_def py_lstrip_def py_rstrip_def whitespace_def)
  have smp: "map spec_trim [[97, 34], [32, 34, 98]] = [[97], [98]]"
    by (simp add: st)
  have 2: "spec_exclude_authors [34, 97, 34, 44, 32, 34, 98, 34] = {[97], [98]}"
    unfolding spec_exclude_authors_def score parts smp by simp
  have "[34, 98] \<notin> {[97], [98::nat]}" by simp
  with 1 2 show ?thesis by simp
qed

text \<open>
  C8, as amended. The string first loses double quotes (34) and then single quotes (39)
  at both ends, and no whitespace. The rest is cut at the commas: the parts joined by
  commas are that rest and none holds a comma. The set holds exactly the parts trimmed
  of whitespace that are not empty after the trimming; so every member is non-empty,
  has no whitespace at either end and holds no comma.
\<close>

theorem exclude_authors_parse:
  "\<exists>core parts.
      (\<exists>l1 l2 r2 r1. exclude_str = l1 @ l2 @ core @ r2 @ r1
          \<and> set l1 \<subseteq> {34} \<and> set r1 \<subseteq> {34} \<and> set l2 \<subseteq> {39} \<and> set r2 \<subseteq> {39})
    \<and> core = py_strip (py_strip exclude_str [34]) [39]
    \<and> py_join [44] parts = core
    \<and> (\<forall>p \<in> set parts. 44 \<notin> set p)
    \<and> exclude_authors exclude_str = {author. author \<noteq> [] \<and> (\<exists>p \<in> set parts. author = py_strip_ws p)}
    \<and> (\<forall>author \<in> exclude_authors exclude_str.
          author \<noteq> [] \<and> hd author \<notin> set whitespace \<and> last author \<notin> set whitespace
          \<and> 44 \<notin> set author)"
proof -
  define core where "core = py_strip (py_strip exclude_str [34]) [39]"
  define parts where "parts = split_on [44] core"
  have comma: "ascii '','' = [44]" by (simp add: ascii_def)
  obtain l1 r1 where 1: "exclude_str = l1 @ py_strip exclude_str [34] @ r1"
      "set l1 \<subseteq> {34}" "set r1 \<subseteq> {34}"
    using py_strip_decompose[of exclude_str "[34]"] by auto
  obtain l2 r2 where 2: "py_strip exclude_str [34] = l2 @ core @ r2"
      "set l2 \<subseteq> {39}" "set r2 \<subseteq> {39}"
    using py_strip_decompose[of "py_strip exclude_str [34]" "[39]"] by (auto simp: core_def)
  have "exclude_str = l1 @ l2 @ core @ r2 @ r1" using 1(1) 2(1) by simp
  then have a: "\<exists>l1 l2 r2 r1. exclude_str = l1 @ l2 @ core @ r2 @ r1
          \<and> set l1 \<subseteq> {34} \<and> set r1 \<subseteq> {34} \<and> set l2 \<subseteq> {39} \<and> set r2 \<subseteq> {39}"
    using 1(2,3) 2(2,3) by blast
  have b: "py_join [44] parts = core" by (simp add: parts_def py_join_split_on)
  have c: "\<forall>p \<in> set parts. 44 \<notin> set p"
    using split_on_parts_no_sep[of "[44]" _ core] by (auto simp: parts_def sublist_single)
  have d: "exclude_authors exclude_str = {author. author \<noteq> [] \<and> (\<exists>p \<in> set parts. author = py_strip_ws p)}"
    unfolding exclude_authors_def Let_def py_split_def comma parts_def core_def by auto
  have e: "\<forall>author \<in> exclude_authors exclude_str.
          author \<noteq> [] \<and> hd author \<notin> set whitespace \<and> last author \<notin> set whitespace
          \<and> 44 \<notin> set author"
  proof
    fix author assume "author \<in> exclude_authors exclude_str"
    with d obtain p where p: "p \<in> set parts" "author = py_strip_ws p" "author \<noteq> []" by auto
    have "hd author \<notin> set whitespace \<and> last author \<notin> set whitespace"
      using p py_strip_ends[of p whitespace] by (simp add: py_strip_ws_def)
    moreover have "44 \<notin> set p" using p c by simp
    then have "44 \<notin> set author"
      using p py_strip_subset[of p whitespace] by (auto simp: py_strip_ws_def)
    ultimately show "author \<noteq> [] \<and> hd author \<notin> set whitespace \<and> last author \<notin> set whitespace
          \<and> 44 \<notin> set author" using p by simp
  qed
  show ?thesis
    apply (rule exI[of _ core])
    apply (rule exI[of _ parts])
    using a b c d e core_def by (intro conjI)
qed

text \<open>The theorem on a string with a padded name and empty elements.\<close>

theorem exclude_authors_parse_witness:
  "exclude_authors (ascii ''empenoso, bob ,,'') = {ascii ''empenoso'', ascii ''bob''}
   \<and> (\<exists>parts. py_join [44] parts = ascii ''empenoso, bob ,,''
        \<and> exclude_authors (ascii ''empenoso, bob ,,'')
            = {author. author \<noteq> [] \<and> (\<exists>p \<in> set parts. author = py_strip_ws p)})"
proof -
  let ?s = "ascii ''empenoso, bob ,,''"
  have core: "py_strip (py_strip ?s [34]) [39] = ?s"
    by (simp add: py_strip_def py_lstrip_def py_rstrip_def ascii_def)
  from exclude_authors_parse[of ?s]
  obtain core parts where
    c: "core = py_strip (py_strip ?s [34]) [39]"
    and j: "py_join [44] parts = core"
    and e: "exclude_authors ?s = {author. author \<noteq> [] \<and> (\<exists>p \<in> set parts. author = py_strip_ws p)}"
    by (elim exE conjE)
  from c j e core have ex: "\<exists>parts. py_join [44] parts = ?s
        \<and> exclude_authors ?s = {author. author \<noteq> [] \<and> (\<exists>p \<in> set parts. author = py_strip_ws p)}"
    by (intro exI[of _ parts]) simp
  have parts: "py_split ?s (ascii '','') = [ascii ''empenoso'', ascii '' bob '', [], []]"
    by (simp add: py_split_def ascii_def)
  have ws: "py_strip_ws (ascii ''empenoso'') = ascii ''empenoso''"
      "py_strip_ws (ascii '' bob '') = ascii ''bob''" "py_strip_ws [] = []"
    by (simp_all add: py_strip_ws_def py_strip_def py_lstrip_def py_rstrip_def whitespace_def ascii_def)
  have ne: "ascii ''empenoso'' \<noteq> []" "ascii ''bob'' \<noteq> []" by (simp_all add: ascii_def)
  have fl: "filter (\<lambda>author. py_strip_ws author \<noteq> []) [ascii ''empenoso'', ascii '' bob '', [], []]
      = [ascii ''empenoso'', ascii '' bob '']"
    by (simp add: ws ne)
  have mp: "map py_strip_ws [ascii ''empenoso'', ascii '' bob ''] = [ascii ''empenoso'', ascii ''bob'']"
    by (simp add: ws)
  have "exclude_authors ?s = {ascii ''empenoso'', ascii ''bob''}"
    unfolding exclude_authors_def Let_def core parts fl mp by simp
  with ex show ?thesis by (rule conjI[rotated])
qed

section \<open>Reading one file\<close>

text \<open>Every record the loop returns comes from a \<open>dict\<close> of the input that the analyzer
  accepted, with the two keys set; and the loop over a list of files is the loop over
  its first part followed by the loop over the rest.\<close>

lemma map_of_dict_set:
  "map_of (dict_set kvs key v) key' = (if key' = key then Some v else map_of kvs key')"
  by (simp add: dict_set_def update_conv')

lemma positive_loop_kept:
  assumes "positive_loop rt analyzer article_url directory_name acc comments = Inr res"
  shows "\<exists>kept. res = acc @ kept \<and>
           (\<forall>r \<in> set kept. \<exists>entries. JObj entries \<in> set comments
              \<and> r = JObj (dict_set (dict_set entries (ascii ''article_url'') article_url)
                           (ascii ''directory_name'') (JStr directory_name))
              \<and> is_positive_comment rt analyzer (dict_get entries (ascii ''text'') (JStr []))
                   (dict_get entries (ascii ''author'') (JStr [])) = Inr True)"
proof -
  define from_list where "from_list cs r \<longleftrightarrow>
      (\<exists>entries. JObj entries \<in> set cs
              \<and> r = JObj (dict_set (dict_set entries (ascii ''article_url'') article_url)
                           (ascii ''directory_name'') (JStr directory_name))
              \<and> is_positive_comment rt analyzer (dict_get entries (ascii ''text'') (JStr []))
                   (dict_get entries (ascii ''author'') (JStr [])) = Inr True)" for cs r
  have mono: "from_list cs r \<Longrightarrow> from_list (c # cs) r" for cs c r
    by (auto simp: from_list_def)
  have "\<exists>kept. res = acc @ kept \<and> (\<forall>r \<in> set kept. from_list comments r)"
    using assms
  proof (induction comments arbitrary: acc)
    case Nil
    then show ?case by simp
  next
    case (Cons comment comments)
    from Cons.prems obtain entries where c: "comment = JObj entries"
      by (cases comment) auto
    let ?text = "dict_get entries (ascii ''text'') (JStr [])"
    let ?author = "dict_get entries (ascii ''author'') (JStr [])"
    let ?stamped = "JObj (dict_set (dict_set entries (ascii ''article_url'') article_url)
                             (ascii ''directory_name'') (JStr directory_name))"
    show ?case
    proof (cases "\<not> py_truthy ?text \<or> \<not> py_truthy ?author")
      case True
      with Cons.prems c have "positive_loop rt analyzer article_url directory_name acc comments = Inr res"
        by (simp add: Let_def)
      from Cons.IH[OF this] show ?thesis using mono by blast
    next
      case False
      with Cons.prems c obtain positive where p: "is_positive_comment rt analyzer ?text ?author = Inr positive"
        by (cases "is_positive_comment rt analyzer ?text ?author") (auto simp: Let_def)
      show ?thesis
      proof (cases positive)
        case True
        with Cons.prems c False p
        have "positive_loop rt analyzer article_url directory_name (acc @ [?stamped]) comments = Inr res"
          by (simp add: Let_def)
        from Cons.IH[OF this] obtain kept where k: "res = (acc @ [?stamped]) @ kept"
          "\<forall>r \<in> set kept. from_list comments r"
          by blast
        have s: "from_list (comment # comments) ?stamped"
          unfolding from_list_def using c p True by (intro exI[of _ entries]) simp
        have "res = acc @ (?stamped # kept)" using k(1) by simp
        moreover have "\<forall>r \<in> set (?stamped # kept). from_list (comment # comments) r"
          using s k(2) mono by auto
        ultimately show ?thesis by blast
      next
        case F: False
        with Cons.prems c False p
        have "positive_loop rt analyzer article_url directory_name acc comments = Inr res"
          by (simp add: Let_def)
        from Cons.IH[OF this] show ?thesis using mono by blast
      qed
    qed
  qed
  then show ?thesis unfolding from_list_def .
qed

lemma process_files_append:
  "process_files rt analyzer directory (xs @ ys) state
   = and_then (process_files rt analyzer directory xs state) (process_files rt analyzer directory ys)"
proof (induction xs arbitrary: state)
  case Nil
  then show ?case by (simp add: and_then_def)
next
  case (Cons x xs)
  then show ?case
    by (cases "process_json_file rt x analyzer (dir_name directory)")
       (auto simp: and_then_def split: sum.splits)
qed

lemma example_positive:
  "is_positive_comment builtins_basic example_analyzer (JStr (ascii ''great article'')) (JStr (ascii ''ann'')) = Inr True"
  by (simp add: is_positive_comment_def and_then_def example_analyzer_def argmax_def ascii_def)

lemma example_excluded:
  "is_positive_comment builtins_basic example_analyzer t (JStr (ascii ''empenoso'')) = Inr False"
  by (simp add: is_positive_comment_def and_then_def example_analyzer_def)

lemma example_file_result:
  "process_json_file builtins_basic example_file example_analyzer (ascii ''habr_comments'')
   = ([], Inr [JObj (example_comment @
                [(ascii ''article_url'', JStr (ascii ''https://habr.com/ru/articles/1/'')),
                 (ascii ''directory_name'', JStr (ascii ''habr_comments''))])])"
proof -
  have k: "ascii ''url'' \<noteq> ascii ''comments''" "ascii ''text'' \<noteq> ascii ''id''"
    "ascii ''text'' \<noteq> ascii ''author''" "ascii ''author'' \<noteq> ascii ''id''"
    "ascii ''article_url'' \<noteq> ascii ''id''" "ascii ''article_url'' \<noteq> ascii ''author''"
    "ascii ''article_url'' \<noteq> ascii ''text''" "ascii ''article_url'' \<noteq> ascii ''likes''"
    "ascii ''directory_name'' \<noteq> ascii ''id''" "ascii ''directory_name'' \<noteq> ascii ''author''"
    "ascii ''directory_name'' \<noteq> ascii ''text''" "ascii ''directory_name'' \<noteq> ascii ''likes''"
    "ascii ''directory_name'' \<noteq> ascii ''article_url''"
    "ascii ''great article'' \<noteq> []" "ascii ''ann'' \<noteq> []" "ascii ''empenoso'' \<noteq> []"
    "ascii ''thanks a lot'' \<noteq> []"
    by (simp_all add: ascii_def)
  show ?thesis
    by (simp add: process_json_file_def example_file_def example_comment_def dict_get_def
          dict_set_def and_then_def Let_def k k[symmetric] example_positive example_excluded)
qed

text \<open>
  C10. Every record that per-file processing returns is a \<open>dict\<close> of the file's
  \<open>comments\<close> with \<open>article_url\<close> set to the file's top-level \<open>url\<close> (the empty string when
  the key is missing) and \<open>directory_name\<close> set to the directory's name; under every other
  key the record holds what the input record holds, unknown fields included.
\<close>

theorem process_json_file_records:
  assumes "snd (process_json_file rt file_path analyzer directory_name) = Inr accepted"
    and "r \<in> set accepted"
  shows "\<exists>document comments entries.
           content file_path = Parsed (JObj document)
         \<and> py_iter (dict_get document (ascii ''comments'') (JArr [])) = Inr comments
         \<and> JObj entries \<in> set comments
         \<and> r = JObj (dict_set (dict_set entries (ascii ''article_url'')
                                 (dict_get document (ascii ''url'') (JStr [])))
                        (ascii ''directory_name'') (JStr directory_name))
         \<and> (\<exists>stamped. r = JObj stamped
              \<and> map_of stamped (ascii ''article_url'') = Some (dict_get document (ascii ''url'') (JStr []))
              \<and> map_of stamped (ascii ''directory_name'') = Some (JStr directory_name)
              \<and> (\<forall>key. key \<noteq> ascii ''article_url'' \<and> key \<noteq> ascii ''directory_name''
                     \<longrightarrow> map_of stamped key = map_of entries key))"
proof -
  have ne: "ascii ''article_url'' \<noteq> ascii ''directory_name''" by (simp add: ascii_def)
  from assms obtain data where d: "content file_path = Parsed data"
    by (cases "content file_path") (auto simp: process_json_file_def)
  with assms obtain document where doc: "data = JObj document"
    by (cases data) (auto simp: process_json_file_def)
  define url where "url = dict_get document (ascii ''url'') (JStr [])"
  define cv where "cv = dict_get document (ascii ''comments'') (JArr [])"
  from assms(1) d doc
  have run: "and_then (py_iter cv) (positive_loop rt analyzer url directory_name []) = Inr accepted"
    by (simp add: process_json_file_def Let_def url_def cv_def)
  then obtain comments where
    it: "py_iter cv = Inr comments"
    and loop: "positive_loop rt analyzer url directory_name [] comments = Inr accepted"
    by (cases "py_iter cv") (auto simp: and_then_def)
  from positive_loop_kept[OF loop] assms(2) obtain entries where
    e: "JObj entries \<in> set comments"
       "r = JObj (dict_set (dict_set entries (ascii ''article_url'') url)
                    (ascii ''directory_name'') (JStr directory_name))"
    by auto
  define stamped where "stamped = dict_set (dict_set entries (ascii ''article_url'') url)
                    (ascii ''directory_name'') (JStr directory_name)"
  have s1: "r = JObj stamped" using e(2) by (simp add: stamped_def)
  have s2: "map_of stamped (ascii ''article_url'') = Some url"
    using ne by (simp add: stamped_def map_of_dict_set)
  have s3: "map_of stamped (ascii ''directory_name'') = Some (JStr directory_name)"
    by (simp add: stamped_def map_of_dict_set)
  have s4: "\<forall>key. key \<noteq> ascii ''article_url'' \<and> key \<noteq> ascii ''directory_name''
                     \<longrightarrow> map_of stamped key = map_of entries key"
    by (simp add: stamped_def map_of_dict_set)
  have ex: "\<exists>stamped. r = JObj stamped
              \<and> map_of stamped (ascii ''article_url'') = Some url
              \<and> map_of stamped (ascii ''directory_name'') = Some (JStr directory_name)
              \<and> (\<forall>key. key \<noteq> ascii ''article_url'' \<and> key \<noteq> ascii ''directory_name''
                     \<longrightarrow> map_of stamped key = map_of entries key)"
    using s1 s2 s3 s4 by (intro exI[of _ stamped] conjI)
  show ?thesis
    apply (rule exI[of _ document])
    apply (rule exI[of _ comments])
    apply (rule exI[of _ entries])
    using d doc it e ex unfolding url_def cv_def by (intro conjI) simp_all
qed

text \<open>The theorem on a file with two comments, one of them by an excluded author: the
  record that comes back carries the unknown field \<open>likes\<close> of the input.\<close>

theorem process_json_file_records_witness:
  "snd (process_json_file builtins_basic example_file example_analyzer (ascii ''habr_comments''))
     = Inr [JObj (example_comment @
                [(ascii ''article_url'', JStr (ascii ''https://habr.com/ru/articles/1/'')),
                 (ascii ''directory_name'', JStr (ascii ''habr_comments''))])]
   \<and> (\<exists>document comments entries stamped.
         content example_file = Parsed (JObj document)
       \<and> py_iter (dict_get document (ascii ''comments'') (JArr [])) = Inr comments
       \<and> JObj entries \<in> set comments
       \<and> JObj (example_comment @
                [(ascii ''article_url'', JStr (ascii ''https://habr.com/ru/articles/1/'')),
                 (ascii ''directory_name'', JStr (ascii ''habr_comments''))]) = JObj stamped
       \<and> map_of stamped (ascii ''likes'') = map_of entries (ascii ''likes''))"
proof -
  let ?r = "JObj (example_comment @
                [(ascii ''article_url'', JStr (ascii ''https://habr.com/ru/articles/1/'')),
                 (ascii ''directory_name'', JStr (ascii ''habr_comments''))])"
  have ev: "snd (process_json_file builtins_basic example_file example_analyzer (ascii ''habr_comments''))
     = Inr [?r]"
    by (simp add: example_file_result)
  have mem: "?r \<in> set [?r]" by simp
  have k: "ascii ''likes'' \<noteq> ascii ''article_url''" "ascii ''likes'' \<noteq> ascii ''directory_name''"
    by (simp_all add: ascii_def)
  from process_json_file_records[OF ev mem]
  obtain document comments entries stamped where
    "content example_file = Parsed (JObj document)"
    "py_iter (dict_get document (ascii ''comments'') (JArr [])) = Inr comments"
    "JObj entries \<in> set comments"
    "?r = JObj stamped"
    "\<forall>key. key \<noteq> ascii ''article_url'' \<and> key \<noteq> ascii ''directory_name''
                     \<longrightarrow> map_of stamped key = map_of entries key"
    by (elim exE conjE)
  then have "content example_file = Parsed (JObj document)
       \<and> py_iter (dict_get document (ascii ''comments'') (JArr [])) = Inr comments
       \<and> JObj entries \<in> set comments
       \<and> ?r = JObj stamped
       \<and> map_of stamped (ascii ''likes'') = map_of entries (ascii ''likes'')"
    using k by blast
  then have "\<exists>document comments entries stamped.
         content example_file = Parsed (JObj document)
       \<and> py_iter (dict_get document (ascii ''comments'') (JArr [])) = Inr comments
       \<and> JObj entries \<in> set comments
       \<and> ?r = JObj stamped
       \<and> map_of stamped (ascii ''likes'') = map_of entries (ascii ''likes'')"
    by blast
  with ev show ?thesis by (rule conjI)
qed

text \<open>
  C9. A file that cannot be read or parsed gives the warning and an empty list, and the
  loop over the files of the directory goes on with the files behind it: only the
  console output differs from a run without the file. In a parsed document a missing
  \<open>comments\<close> key gives the empty list, and a missing \<open>url\<close> key gives what the same
  document gives with \<open>url\<close> set to the empty string.
\<close>

theorem process_json_file_recoverable:
  "(content file_path = Unreadable message \<longrightarrow>
      process_json_file rt file_path analyzer directory_name
        = ([read_warning (file_name file_path) message], Inr [])
    \<and> process_files rt analyzer directory (earlier @ file_path # later) state
        = and_then (process_files rt analyzer directory earlier state) (\<lambda>s.
            process_files rt analyzer directory later
              (fst s, snd s @ [read_warning (file_name file_path) message])))
   \<and> (content file_path = Parsed (JObj document) \<and> map_of document (ascii ''comments'') = None \<longrightarrow>
      process_json_file rt file_path analyzer directory_name = ([], Inr []))
   \<and> (content file_path = Parsed (JObj document) \<and> map_of document (ascii ''url'') = None \<longrightarrow>
      process_json_file rt file_path analyzer directory_name
        = process_json_file rt
            (file_path\<lparr> content := Parsed (JObj (dict_set document (ascii ''url'') (JStr []))) \<rparr>)
            analyzer directory_name)"
proof (intro conjI impI)
  assume u: "content file_path = Unreadable message"
  then have 1: "process_json_file rt file_path analyzer dn
        = ([read_warning (file_name file_path) message], Inr [])" for dn
    by (simp add: process_json_file_def)
  show "process_json_file rt file_path analyzer directory_name
        = ([read_warning (file_name file_path) message], Inr [])"
    by (rule 1)
  have "process_files rt analyzer directory (file_path # later)
      = (\<lambda>s. process_files rt analyzer directory later
              (fst s, snd s @ [read_warning (file_name file_path) message]))"
    by (rule ext) (simp add: 1)
  then show "process_files rt analyzer directory (earlier @ file_path # later) state
        = and_then (process_files rt analyzer directory earlier state) (\<lambda>s.
            process_files rt analyzer directory later
              (fst s, snd s @ [read_warning (file_name file_path) message]))"
    by (simp only: process_files_append)
next
  assume "content file_path = Parsed (JObj document) \<and> map_of document (ascii ''comments'') = None"
  then show "process_json_file rt file_path analyzer directory_name = ([], Inr [])"
    by (simp add: process_json_file_def dict_get_def and_then_def)
next
  assume a: "content file_path = Parsed (JObj document) \<and> map_of document (ascii ''url'') = None"
  have ne: "ascii ''comments'' \<noteq> ascii ''url''" by (simp add: ascii_def)
  have g1: "dict_get (dict_set document (ascii ''url'') (JStr [])) (ascii ''url'') (JStr [])
      = dict_get document (ascii ''url'') (JStr [])"
    using a by (simp add: dict_get_def map_of_dict_set)
  have g2: "dict_get (dict_set document (ascii ''url'') (JStr [])) (ascii ''comments'') (JArr [])
      = dict_get document (ascii ''comments'') (JArr [])"
    using ne by (simp add: dict_get_def map_of_dict_set)
  show "process_json_file rt file_path analyzer directory_name
        = process_json_file rt
            (file_path\<lparr> content := Parsed (JObj (dict_set document (ascii ''url'') (JStr []))) \<rparr>)
            analyzer directory_name"
    using a by (simp add: process_json_file_def g1 g2)
qed

text \<open>The theorem on a directory whose first file is broken: the comment of the second
  file is still collected.\<close>

theorem process_json_file_recoverable_witness:
  "content broken_file = Unreadable (ascii ''Expecting value'')
   \<and> process_json_file builtins_basic broken_file example_analyzer (ascii ''habr_comments'')
       = ([read_warning (ascii ''b.json'') (ascii ''Expecting value'')], Inr [])
   \<and> process_files builtins_basic example_analyzer
        \<lparr> dir_path = ascii ''./habr_comments'', dir_name = ascii ''habr_comments'', is_dir = True,
          json_files = [broken_file, example_file], writable = True \<rparr>
        [broken_file, example_file] ([], [])
       = Inr ([(\<lparr> dir_path = ascii ''./habr_comments'', dir_name = ascii ''habr_comments'',
                   is_dir = True, json_files = [broken_file, example_file], writable = True \<rparr>,
                 [JObj (example_comment @
                    [(ascii ''article_url'', JStr (ascii ''https://habr.com/ru/articles/1/'')),
                     (ascii ''directory_name'', JStr (ascii ''habr_comments''))])])],
              [read_warning (ascii ''b.json'') (ascii ''Expecting value'')])"
proof -
  let ?d = "\<lparr> dir_path = ascii ''./habr_comments'', dir_name = ascii ''habr_comments'', is_dir = True,
          json_files = [broken_file, example_file], writable = True \<rparr>"
  have c: "content broken_file = Unreadable (ascii ''Expecting value'')"
    by (simp add: broken_file_def)
  have n: "file_name broken_file = ascii ''b.json''" by (simp add: broken_file_def)
  note t = process_json_file_recoverable[of broken_file "ascii ''Expecting value''" builtins_basic
      example_analyzer "ascii ''habr_comments''" ?d "[]" "[example_file]" "([], [])" "[]"]
  from t c have 1: "process_json_file builtins_basic broken_file example_analyzer (ascii ''habr_comments'')
        = ([read_warning (file_name broken_file) (ascii ''Expecting value'')], Inr [])"
    and 2: "process_files builtins_basic example_analyzer ?d ([] @ broken_file # [example_file]) ([], [])
        = and_then (process_files builtins_basic example_analyzer ?d [] ([], [])) (\<lambda>s.
            process_files builtins_basic example_analyzer ?d [example_file]
              (fst s, snd s @ [read_warning (file_name broken_file) (ascii ''Expecting value'')]))"
    by blast+
  from 2 have 3: "process_files builtins_basic example_analyzer ?d [broken_file, example_file] ([], [])
       = process_files builtins_basic example_analyzer ?d [example_file]
          ([], [read_warning (ascii ''b.json'') (ascii ''Expecting value'')])"
    by (simp add: and_then_def n del: process_files.simps(2))
  have 4: "process_files builtins_basic example_analyzer ?d [example_file]
          ([], [read_warning (ascii ''b.json'') (ascii ''Expecting value'')])
       = Inr ([(?d, [JObj (example_comment @
                    [(ascii ''article_url'', JStr (ascii ''https://habr.com/ru/articles/1/'')),
                     (ascii ''directory_name'', JStr (ascii ''habr_comments''))])])],
              [read_warning (ascii ''b.json'') (ascii ''Expecting value'')])"
    by (simp add: example_file_result)
  show ?thesis using c 1 3 4 n by simp
qed

section \<open>Sorting the comments of a directory\<close>

text \<open>On keys that are numbers every comparison succeeds; inserting into an ordered
  list keeps it ordered, adds the one item, and puts it behind the items of equal key.\<close>

lemma id_key_numeric:
  assumes "numeric_id c"
  shows "\<exists>k. id_key c = Inr k \<and> num_val k = Some (id_number c)"
proof -
  from assms obtain entries where c: "c = JObj entries"
    by (cases c) (auto simp: numeric_id_def)
  show ?thesis
  proof (cases "map_of entries (ascii ''id'')")
    case None
    with c show ?thesis by (simp add: id_key_def id_number_def)
  next
    case (Some v)
    with c assms show ?thesis
      by (cases v) (auto simp: id_key_def id_number_def numeric_id_def)
  qed
qed

lemma py_lt_numbers:
  assumes "num_val a = Some r" "num_val b = Some s"
  shows "py_lt a b = Inr (r < s)"
  using assms by (cases a; cases b) auto

lemma insert_by_key_numbers:
  assumes "num_val (fst kx) = Some (id_number (snd kx))"
    and "\<forall>p \<in> set placed. num_val (fst p) = Some (id_number (snd p))"
    and "sorted_wrt (\<lambda>a b. id_number (snd a) \<le> id_number (snd b)) placed"
  shows "\<exists>placed'. insert_by_key kx placed = Inr placed'
           \<and> mset placed' = add_mset kx (mset placed)
           \<and> sorted_wrt (\<lambda>a b. id_number (snd a) \<le> id_number (snd b)) placed'
           \<and> (\<forall>k. filter (\<lambda>p. id_number (snd p) = k) placed'
                  = filter (\<lambda>p. id_number (snd p) = k) placed
                    @ (if id_number (snd kx) = k then [kx] else []))"
  using assms(2,3)
proof (induction placed)
  case Nil
  then show ?case by simp
next
  case (Cons ky placed)
  have lt: "py_lt (fst kx) (fst ky) = Inr (id_number (snd kx) < id_number (snd ky))"
    using assms(1) Cons.prems(1) by (intro py_lt_numbers) auto
  show ?case
  proof (cases "id_number (snd kx) < id_number (snd ky)")
    case True
    have above: "\<forall>p \<in> set (ky # placed). id_number (snd kx) < id_number (snd p)"
      using True Cons.prems(2) by auto
    have "filter (\<lambda>p. id_number (snd p) = id_number (snd kx)) (ky # placed) = []"
      using above by (auto simp: filter_empty_conv)
    then have f: "\<forall>k. filter (\<lambda>p. id_number (snd p) = k) (kx # ky # placed)
                  = filter (\<lambda>p. id_number (snd p) = k) (ky # placed)
                    @ (if id_number (snd kx) = k then [kx] else [])"
      by auto
    have s: "sorted_wrt (\<lambda>a b. id_number (snd a) \<le> id_number (snd b)) (kx # ky # placed)"
      using above Cons.prems(2) by (auto simp: less_imp_le)
    show ?thesis
      using lt True f s by (intro exI[of _ "kx # ky # placed"]) simp
  next
    case False
    have ih_prems: "\<forall>p \<in> set placed. num_val (fst p) = Some (id_number (snd p))"
      "sorted_wrt (\<lambda>a b. id_number (snd a) \<le> id_number (snd b)) placed"
      using Cons.prems by auto
    from Cons.IH[OF ih_prems] obtain placed' where p:
      "insert_by_key kx placed = Inr placed'"
      "mset placed' = add_mset kx (mset placed)"
      "sorted_wrt (\<lambda>a b. id_number (snd a) \<le> id_number (snd b)) placed'"
      "\<forall>k. filter (\<lambda>p. id_number (snd p) = k) placed'
                  = filter (\<lambda>p. id_number (snd p) = k) placed
                    @ (if id_number (snd kx) = k then [kx] else [])"
      by blast
    have "set placed' = insert kx (set placed)"
      using p(2) by (metis set_mset_add_mset_insert set_mset_mset)
    then have s: "sorted_wrt (\<lambda>a b. id_number (snd a) \<le> id_number (snd b)) (ky # placed')"
      using p(3) Cons.prems(2) False by auto
    have f: "\<forall>k. filter (\<lambda>p. id_number (snd p) = k) (ky # placed')
                  = filter (\<lambda>p. id_number (snd p) = k) (ky # placed)
                    @ (if id_number (snd kx) = k then [kx] else [])"
      using p(4) by simp
    have m: "mset (ky # placed') = add_mset kx (mset (ky # placed))"
      using p(2) by simp
    have r: "insert_by_key kx (ky # placed) = Inr (ky # placed')"
      using lt False p(1) by simp
    show ?thesis using r m s f by blast
  qed
qed

lemma insertion_sort_numbers:
  assumes "\<forall>p \<in> set placed. num_val (fst p) = Some (id_number (snd p))"
    and "\<forall>p \<in> set rest. num_val (fst p) = Some (id_number (snd p))"
    and "sorted_wrt (\<lambda>a b. id_number (snd a) \<le> id_number (snd b)) placed"
  shows "\<exists>res. insertion_sort placed rest = Inr res
           \<and> mset res = mset placed + mset rest
           \<and> sorted_wrt (\<lambda>a b. id_number (snd a) \<le> id_number (snd b)) res
           \<and> (\<forall>k. filter (\<lambda>p. id_number (snd p) = k) res
                  = filter (\<lambda>p. id_number (snd p) = k) placed
                    @ filter (\<lambda>p. id_number (snd p) = k) rest)"
  using assms
proof (induction rest arbitrary: placed)
  case Nil
  then show ?case by simp
next
  case (Cons kx rest)
  have kx: "num_val (fst kx) = Some (id_number (snd kx))" using Cons.prems(2) by simp
  from insert_by_key_numbers[OF kx Cons.prems(1) Cons.prems(3)] obtain placed' where p:
      "insert_by_key kx placed = Inr placed'"
      "mset placed' = add_mset kx (mset placed)"
      "sorted_wrt (\<lambda>a b. id_number (snd a) \<le> id_number (snd b)) placed'"
      "\<forall>k. filter (\<lambda>p. id_number (snd p) = k) placed'
                  = filter (\<lambda>p. id_number (snd p) = k) placed
                    @ (if id_number (snd kx) = k then [kx] else [])"
    by blast
  have "set placed' = insert kx (set placed)"
    using p(2) by (metis set_mset_add_mset_insert set_mset_mset)
  then have ok: "\<forall>p \<in> set placed'. num_val (fst p) = Some (id_number (snd p))"
    using kx Cons.prems(1) by auto
  have rest: "\<forall>p \<in> set rest. num_val (fst p) = Some (id_number (snd p))"
    using Cons.prems(2) by simp
  from Cons.IH[OF ok rest p(3)] obtain res where r:
      "insertion_sort placed' rest = Inr res"
      "mset res = mset placed' + mset rest"
      "sorted_wrt (\<lambda>a b. id_number (snd a) \<le> id_number (snd b)) res"
      "\<forall>k. filter (\<lambda>p. id_number (snd p) = k) res
                  = filter (\<lambda>p. id_number (snd p) = k) placed'
                    @ filter (\<lambda>p. id_number (snd p) = k) rest"
    by blast
  have 1: "insertion_sort placed (kx # rest) = Inr res" using p(1) r(1) by simp
  have 2: "mset res = mset placed + mset (kx # rest)" using r(2) p(2) by simp
  have 3: "\<forall>k. filter (\<lambda>p. id_number (snd p) = k) res
                  = filter (\<lambda>p. id_number (snd p) = k) placed
                    @ filter (\<lambda>p. id_number (snd p) = k) (kx # rest)"
    using r(4) p(4) by simp
  show ?case using 1 2 r(3) 3 by blast
qed

lemma keyed_numbers:
  assumes "\<forall>c \<in> set comments. numeric_id c"
  shows "\<exists>kcs. keyed comments = Inr kcs \<and> map snd kcs = comments
           \<and> (\<forall>p \<in> set kcs. num_val (fst p) = Some (id_number (snd p)))"
  using assms
proof (induction comments)
  case Nil
  then show ?case by simp
next
  case (Cons c comments)
  from Cons.prems id_key_numeric[of c] obtain k where k: "id_key c = Inr k"
      "num_val k = Some (id_number c)" by auto
  from Cons obtain kcs where kcs: "keyed comments = Inr kcs" "map snd kcs = comments"
      "\<forall>p \<in> set kcs. num_val (fst p) = Some (id_number (snd p))" by auto
  show ?case
    using k kcs by (intro exI[of _ "(k, c) # kcs"]) simp
qed

text \<open>
  When every id is a number, \<open>null\<close> or missing, the sort returns the same records,
  ascending by id with a missing or \<open>null\<close> id counted as 0, and the records of each id
  stand in the order they had before.
\<close>

lemma sort_comments_numeric_ids:
  assumes "\<forall>c \<in> set comments. numeric_id c"
  shows "\<exists>ordered. sort_comments comments = Inr ordered
           \<and> mset ordered = mset comments
           \<and> sorted_wrt (\<lambda>a b. id_number a \<le> id_number b) ordered
           \<and> (\<forall>k. filter (\<lambda>c. id_number c = k) ordered = filter (\<lambda>c. id_number c = k) comments)"
proof -
  from keyed_numbers[OF assms] obtain kcs where kcs: "keyed comments = Inr kcs"
      "map snd kcs = comments"
      "\<forall>p \<in> set kcs. num_val (fst p) = Some (id_number (snd p))" by blast
  have e: "\<forall>p \<in> set []. num_val (fst p) = Some (id_number (snd p))" by simp
  have s0: "sorted_wrt (\<lambda>a b. id_number (snd a) \<le> id_number (snd b)) []" by simp
  from insertion_sort_numbers[OF e kcs(3) s0] obtain res where r:
      "insertion_sort [] kcs = Inr res"
      "mset res = mset [] + mset kcs"
      "sorted_wrt (\<lambda>a b. id_number (snd a) \<le> id_number (snd b)) res"
      "\<forall>k. filter (\<lambda>p. id_number (snd p) = k) res
                  = filter (\<lambda>p. id_number (snd p) = k) []
                    @ filter (\<lambda>p. id_number (snd p) = k) kcs"
    by blast
  have 1: "sort_comments comments = Inr (map snd res)"
    using kcs(1) r(1) by (simp add: sort_comments_def)
  have "mset (map snd res) = mset (map snd kcs)" using r(2) by simp
  then have 2: "mset (map snd res) = mset comments" using kcs(2) by simp
  have 3: "sorted_wrt (\<lambda>a b. id_number a \<le> id_number b) (map snd res)"
    using r(3) by (simp add: sorted_wrt_map)
  have 4: "\<forall>k. filter (\<lambda>c. id_number c = k) (map snd res) = filter (\<lambda>c. id_number c = k) comments"
  proof
    fix k
    have "filter (\<lambda>c. id_number c = k) (map snd res)
        = map snd (filter (\<lambda>p. id_number (snd p) = k) res)"
      by (simp add: filter_map comp_def)
    also have "\<dots> = map snd (filter (\<lambda>p. id_number (snd p) = k) kcs)" using r(4) by simp
    also have "\<dots> = filter (\<lambda>c. id_number c = k) (map snd kcs)"
      by (simp add: filter_map comp_def)
    finally show "filter (\<lambda>c. id_number c = k) (map snd res) = filter (\<lambda>c. id_number c = k) comments"
      using kcs(2) by simp
  qed
  show ?thesis using 1 2 3 4 by blast
qed

text \<open>On the ids 5, \<open>null\<close>, 2, 2 of the specification \<open>null\<close> comes first and the two records
  with id 2 keep their order.\<close>

lemma sort_comments_specification_example:
  "sort_comments
     [JObj [(ascii ''id'', JInt 5)],
      JObj [(ascii ''id'', JNull)],
      JObj [(ascii ''id'', JInt 2), (ascii ''author'', JStr (ascii ''first''))],
      JObj [(ascii ''id'', JInt 2), (ascii ''author'', JStr (ascii ''second''))]]
   = Inr [JObj [(ascii ''id'', JNull)],
          JObj [(ascii ''id'', JInt 2), (ascii ''author'', JStr (ascii ''first''))],
          JObj [(ascii ''id'', JInt 2), (ascii ''author'', JStr (ascii ''second''))],
          JObj [(ascii ''id'', JInt 5)]]
   \<and> sorted_wrt (\<lambda>a b. id_number a \<le> id_number b)
        [JObj [(ascii ''id'', JNull)],
          JObj [(ascii ''id'', JInt 2), (ascii ''author'', JStr (ascii ''first''))],
          JObj [(ascii ''id'', JInt 2), (ascii ''author'', JStr (ascii ''second''))],
          JObj [(ascii ''id'', JInt 5)]]"
proof -
  let ?input = "[JObj [(ascii ''id'', JInt 5)],
      JObj [(ascii ''id'', JNull)],
      JObj [(ascii ''id'', JInt 2), (ascii ''author'', JStr (ascii ''first''))],
      JObj [(ascii ''id'', JInt 2), (ascii ''author'', JStr (ascii ''second''))]]"
  let ?output = "[JObj [(ascii ''id'', JNull)],
          JObj [(ascii ''id'', JInt 2), (ascii ''author'', JStr (ascii ''first''))],
          JObj [(ascii ''id'', JInt 2), (ascii ''author'', JStr (ascii ''second''))],
          JObj [(ascii ''id'', JInt 5)]]"
  have h: "\<forall>c \<in> set ?input. numeric_id c"
    by (simp add: numeric_id_def)
  have ev: "sort_comments ?input = Inr ?output"
    by (simp add: sort_comments_def id_key_def)
  from sort_comments_numeric_ids[OF h] obtain ordered where
    o: "sort_comments ?input = Inr ordered"
       "sorted_wrt (\<lambda>a b. id_number a \<le> id_number b) ordered"
    by blast
  from o(1) ev have "ordered = ?output" by simp
  with o(2) have "sorted_wrt (\<lambda>a b. id_number a \<le> id_number b) ?output" by simp
  with ev show ?thesis by (rule conjI)
qed

text \<open>
  C4. The sort is to order every list of accepted records by id, a record without an id
  counting as 0: the \<open>else 0\<close> of the key is there for such records, and the report takes
  an id of any type. The key is the id itself, though, so beside a string id the 0 of a
  \<open>null\<close> id meets a string: the comparison raises \<open>TypeError\<close>, nothing catches it, and the
  run ends before the report of the directory is opened.
\<close>

theorem sort_comments_string_and_null_id:
  "sort_comments [JObj [(ascii ''id'', JStr (ascii ''a''))], JObj [(ascii ''id'', JNull)]]
     = Inl TypeError
   \<and> write_reports builtins_basic
        [(habr_dir, [JObj [(ascii ''id'', JStr (ascii ''a''))], JObj [(ascii ''id'', JNull)]])] []
     = ([], Some TypeError)"
proof -
  have s: "sort_comments [JObj [(ascii ''id'', JStr (ascii ''a''))], JObj [(ascii ''id'', JNull)]]
      = Inl TypeError"
    by (simp add: sort_comments_def id_key_def)
  then show ?thesis by simp
qed

section \<open>Writing the report\<close>

text \<open>When every line can be encoded the loop writes the blocks with the separator line
  between them; a text made of lines without line breaks reads back as those lines; a
  block has four lines, each behind its label, so none of them is the separator.\<close>

lemma file_writes_encodable:
  assumes "\<forall>s \<in> set ss. encodable s"
  shows "file_writes written ss = (written @ concat ss, None)"
  using assms by (induction ss arbitrary: written) (auto simp: file_write_def)

lemma encodable_append: "encodable (a @ b) \<longleftrightarrow> encodable a \<and> encodable b"
  by (simp add: encodable_def)

lemma encodable_separator: "encodable (separator @ [10])"
  by (simp add: encodable_def separator_def list_all_iff)

lemma py_join_lines:
  "concat (map (\<lambda>l. l @ [c]) (py_join [s] (b # b' # bs)))
   = concat (map (\<lambda>l. l @ [c]) b) @ (s @ [c]) @ concat (map (\<lambda>l. l @ [c]) (py_join [s] (b' # bs)))"
  by simp

lemma write_loop_blocks:
  assumes "comments \<noteq> []" "idx + length comments = n"
    and "map (comment_lines rt) comments = map Inr blocks"
    and "\<forall>b \<in> set blocks. \<forall>l \<in> set b. encodable l"
  shows "write_loop rt n idx comments written
         = (written @ concat (map (\<lambda>l. l @ [10]) (py_join [separator] blocks)), None)"
  using assms
proof (induction comments arbitrary: idx written blocks)
  case Nil
  then show ?case by simp
next
  case (Cons c rest)
  from Cons.prems(3) obtain b bs where bl: "blocks = b # bs" "comment_lines rt c = Inr b"
      "map (comment_lines rt) rest = map Inr bs"
    by (cases blocks) auto
  have enc: "\<forall>s \<in> set (map (\<lambda>l. l @ [10]) b). encodable s"
    using Cons.prems(4) bl(1) by (auto simp: encodable_append encodable_def)
  show ?case
  proof (cases rest)
    case Nil
    then have last: "\<not> int idx < int n - 1" using Cons.prems(2) by simp
    have bs: "bs = []" using bl(3) Nil by simp
    have "file_writes written (map (\<lambda>l. l @ [10]) b) = (written @ concat (map (\<lambda>l. l @ [10]) b), None)"
      using enc by (rule file_writes_encodable)
    then show ?thesis using Nil bl last bs by simp
  next
    case (Cons c' rest')
    then have more: "int idx < int n - 1" using Cons.prems(2) by simp
    from bl(3) Cons obtain b' bs' where bs: "bs = b' # bs'" by (cases bs) auto
    have enc2: "\<forall>s \<in> set (map (\<lambda>l. l @ [10]) b @ [separator @ [10]]). encodable s"
      using enc encodable_separator by auto
    have w: "file_writes written (map (\<lambda>l. l @ [10]) b @ [separator @ [10]])
        = (written @ concat (map (\<lambda>l. l @ [10]) b @ [separator @ [10]]), None)"
      using enc2 by (rule file_writes_encodable)
    have ih: "write_loop rt n (Suc idx) rest (written @ concat (map (\<lambda>l. l @ [10]) b @ [separator @ [10]]))
        = ((written @ concat (map (\<lambda>l. l @ [10]) b @ [separator @ [10]]))
            @ concat (map (\<lambda>l. l @ [10]) (py_join [separator] bs)), None)"
    proof (rule Cons.IH)
      show "rest \<noteq> []" using Cons by simp
      show "Suc idx + length rest = n" using Cons.prems(2) by simp
      show "map (comment_lines rt) rest = map Inr bs" by (rule bl(3))
      show "\<forall>b \<in> set bs. \<forall>l \<in> set b. encodable l" using Cons.prems(4) bl(1) by simp
    qed
    have "write_loop rt n idx (c # rest) written
        = write_loop rt n (Suc idx) rest (written @ concat (map (\<lambda>l. l @ [10]) b @ [separator @ [10]]))"
      using bl(2) more w by simp
    also note ih
    finally show ?thesis using bl(1) bs by simp
  qed
qed

lemma split_on_newline_line:
  assumes "c \<notin> set l"
  shows "split_on [c] (l @ c # rest) = l # split_on [c] rest"
proof -
  have "\<not> sublist [c] (l @ butlast [c])" using assms by (simp add: sublist_single)
  from split_on_at_first[OF _ this, of rest] show ?thesis by simp
qed

lemma split_on_lines:
  assumes "\<forall>l \<in> set ls. c \<notin> set l"
  shows "split_on [c] (concat (map (\<lambda>l. l @ [c]) ls)) = ls @ [[]]"
  using assms
proof (induction ls)
  case Nil
  then show ?case by simp
next
  case (Cons l ls)
  then have "split_on [c] (l @ c # concat (map (\<lambda>l. l @ [c]) ls)) = l # (ls @ [[]])"
    using split_on_newline_line[of c l] by simp
  then show ?case by simp
qed

lemma text_lines_of_lines:
  assumes "\<forall>l \<in> set ls. 10 \<notin> set l"
  shows "text_lines (concat (map (\<lambda>l. l @ [10]) ls)) = ls"
  using split_on_lines[OF assms] by (simp add: text_lines_def)

lemma hd_separator: "hd separator = 61" "separator \<noteq> []"
  by (simp_all add: separator_def)

lemma comment_lines_shape:
  assumes "comment_lines rt c = Inr ls"
  shows "length ls = 4 \<and> separator \<notin> set ls"
proof -
  from assms obtain entries where c: "c = JObj entries"
    by (cases c) (auto simp: comment_lines_def)
  from assms c obtain a d t u where ls:
    "ls = [[1040, 1074, 1090, 1086, 1088, 58, 32] @ a, [1044, 1072, 1090, 1072, 58, 32] @ d,
           [1058, 1077, 1082, 1089, 1090, 58, 32] @ t,
           [1057, 1089, 1099, 1083, 1082, 1072, 58, 32] @ u]"
    by (auto simp: comment_lines_def and_then_def Let_def split: sum.splits)
  have "\<forall>l \<in> set ls. hd l \<noteq> 61" using ls by simp
  then have "separator \<notin> set ls" using hd_separator(1) by blast
  then show ?thesis using ls by simp
qed

lemma py_join_length:
  assumes "blocks \<noteq> []" "\<forall>b \<in> set blocks. length b = 4"
  shows "length (py_join [s] blocks) = 5 * length blocks - 1"
  using assms by (induction "[s]" blocks rule: py_join.induct) auto

lemma py_join_count:
  assumes "blocks \<noteq> []" "\<forall>b \<in> set blocks. s \<notin> set b"
  shows "length (filter (\<lambda>l. l = s) (py_join [s] blocks)) = length blocks - 1"
  using assms by (induction "[s]" blocks rule: py_join.induct) (auto simp: filter_empty_conv)

lemma py_join_last:
  assumes "blocks \<noteq> []" "\<forall>b \<in> set blocks. b \<noteq> []"
  shows "last (py_join [s] blocks) = last (last blocks)"
  using assms
proof (induction "[s]" blocks rule: py_join.induct)
  case 1
  then show ?case by simp
next
  case (2 p)
  then show ?case by simp
next
  case (3 p q ps)
  have "py_join [s] (q # ps) \<noteq> []" using 3(3) by (cases ps) auto
  then show ?case using 3 by simp
qed

lemma py_join_set:
  "set (py_join [s] blocks) \<subseteq> insert s (\<Union>b \<in> set blocks. set b)"
  by (induction "[s]" blocks rule: py_join.induct) auto

lemma not_separator: "l \<noteq> [] \<Longrightarrow> hd l \<noteq> 61 \<Longrightarrow> l \<noteq> separator"
  using hd_separator(1) by blast

lemma encodable_separator_line: "encodable separator"
  by (simp add: encodable_def separator_def list_all_iff)

lemma unknown_source_url:
  "get_comment_url builtins_basic (JStr []) (JStr []) cid
   = Inr (ascii ''Unknown source (url: , comment: '' @ cid @ ascii '')'')"
  by (simp add: get_comment_url_def and_then_def builtins_basic_def ascii_def)

text \<open>
  C6, the claim as stated fails: the text of a comment is written as it is, so a comment
  with a line break in its text takes more than four lines. With one accepted comment
  whose text is \<open>ok\<close> followed by a line of 100 equals signs, the file has five lines and one
  of them is a separator line, where the claim gives one four-line block and no
  separator.
\<close>

theorem write_comments_two_line_text:
  "snd (write_comments builtins_basic [two_line_comment]) = None
   \<and> text_lines (fst (write_comments builtins_basic [two_line_comment]))
       = [[1040, 1074, 1090, 1086, 1088, 58, 32] @ ascii ''ann'',
          [1044, 1072, 1090, 1072, 58, 32]
            @ [1044, 1072, 1090, 1072, 32, 1085, 1077, 1080, 1079, 1074, 1077, 1089, 1090, 1085, 1072],
          [1058, 1077, 1082, 1089, 1090, 58, 32] @ ascii ''ok'',
          separator,
          [1057, 1089, 1099, 1083, 1082, 1072, 58, 32]
            @ ascii ''Unknown source (url: , comment: unknown)'']
   \<and> count_list (text_lines (fst (write_comments builtins_basic [two_line_comment]))) separator = 1"
proof -
  let ?l1 = "[1040, 1074, 1090, 1086, 1088, 58, 32] @ ascii ''ann''"
  let ?l2 = "[1044, 1072, 1090, 1072, 58, 32]
            @ [1044, 1072, 1090, 1072, 32, 1085, 1077, 1080, 1079, 1074, 1077, 1089, 1090, 1085, 1072]"
  let ?l3 = "[1058, 1077, 1082, 1089, 1090, 58, 32] @ ascii ''ok''"
  let ?l5 = "[1057, 1089, 1099, 1083, 1082, 1072, 58, 32]
            @ ascii ''Unknown source (url: , comment: unknown)''"
  have k: "ascii ''author'' \<noteq> ascii ''text''" "ascii ''datetime'' \<noteq> ascii ''author''"
    "ascii ''datetime'' \<noteq> ascii ''text''" "ascii ''id'' \<noteq> ascii ''author''"
    "ascii ''id'' \<noteq> ascii ''text''" "ascii ''article_url'' \<noteq> ascii ''author''"
    "ascii ''article_url'' \<noteq> ascii ''text''" "ascii ''directory_name'' \<noteq> ascii ''author''"
    "ascii ''directory_name'' \<noteq> ascii ''text''"
    by (simp_all add: ascii_def)
  have u: "ascii ''Unknown source (url: , comment: '' @ ascii ''unknown'' @ ascii '')''
      = ascii ''Unknown source (url: , comment: unknown)''"
    by (simp add: ascii_def)
  have cl: "comment_lines builtins_basic two_line_comment
      = Inr [?l1, ?l2, ?l3 @ 10 # separator, ?l5]"
    by (simp add: comment_lines_def two_line_comment_def dict_get_def k k[symmetric]
          unknown_source_url and_then_def u)
  have enc: "encodable ?l1" "encodable ?l2" "encodable (?l3 @ 10 # separator)" "encodable ?l5"
    using encodable_separator_line by (simp_all add: encodable_def ascii_def)
  have m: "map (comment_lines builtins_basic) [two_line_comment]
      = map Inr [[?l1, ?l2, ?l3 @ 10 # separator, ?l5]]"
    using cl by simp
  have e: "\<forall>b \<in> set [[?l1, ?l2, ?l3 @ 10 # separator, ?l5]]. \<forall>l \<in> set b. encodable l"
    using enc by simp
  have w: "write_comments builtins_basic [two_line_comment]
      = (concat (map (\<lambda>l. l @ [10]) [?l1, ?l2, ?l3 @ 10 # separator, ?l5]), None)"
    unfolding write_comments_def
    using write_loop_blocks[OF _ _ m e, of 0 1 "[]"] by simp
  have r: "concat (map (\<lambda>l. l @ [10]) [?l1, ?l2, ?l3 @ 10 # separator, ?l5])
      = concat (map (\<lambda>l. l @ [10]) [?l1, ?l2, ?l3, separator, ?l5])"
    by simp
  have nl: "\<forall>l \<in> set [?l1, ?l2, ?l3, separator, ?l5]. 10 \<notin> set l"
    by (simp add: ascii_def separator_def)
  have t: "text_lines (fst (write_comments builtins_basic [two_line_comment]))
      = [?l1, ?l2, ?l3, separator, ?l5]"
    unfolding w fst_conv r using nl by (rule text_lines_of_lines)
  have d: "?l1 \<noteq> separator" "?l2 \<noteq> separator" "?l3 \<noteq> separator" "?l5 \<noteq> separator"
    by (rule not_separator; simp)+
  have c: "count_list [?l1, ?l2, ?l3, separator, ?l5] separator = 1"
    using d by simp
  show ?thesis using w t c by simp
qed

text \<open>
  C6, as amended. For \<open>N \<ge> 1\<close> comments whose lines can be built and encoded, the report
  is written without error and is the \<open>N\<close> blocks of four labelled fields, each field
  ended by a line break, with one separator line of 100 equals signs written between
  consecutive blocks and none after the last. When no field holds a line break, the file
  has \<open>5N - 1\<close> lines: the \<open>N\<close> four-line blocks with exactly \<open>N - 1\<close> separator lines between them,
  and its last line is not a separator.
\<close>

theorem write_comments_report:
  assumes "comments \<noteq> []"
    and "\<forall>c \<in> set comments. \<exists>ls. comment_lines rt c = Inr ls \<and> (\<forall>l \<in> set ls. encodable l)"
  shows "\<exists>blocks report.
        map (comment_lines rt) comments = map Inr blocks
      \<and> (\<forall>b \<in> set blocks. length b = 4 \<and> separator \<notin> set b)
      \<and> write_comments rt comments = (report, None)
      \<and> report = concat (map (\<lambda>l. l @ [10]) (py_join [separator] blocks))
      \<and> ((\<forall>b \<in> set blocks. \<forall>l \<in> set b. 10 \<notin> set l) \<longrightarrow>
           text_lines report = py_join [separator] blocks
         \<and> length (text_lines report) = 5 * length comments - 1
         \<and> length (filter (\<lambda>l. l = separator) (text_lines report)) = length comments - 1
         \<and> last (text_lines report) \<noteq> separator)"
proof -
  define lines_of where "lines_of c = (case comment_lines rt c of Inr ls \<Rightarrow> ls | Inl e \<Rightarrow> [])" for c
  define blocks where "blocks = map lines_of comments"
  define report where "report = concat (map (\<lambda>l. l @ [10]) (py_join [separator] blocks))"
  have each: "comment_lines rt c = Inr (lines_of c) \<and> (\<forall>l \<in> set (lines_of c). encodable l)"
    if "c \<in> set comments" for c
    using assms(2) that by (auto simp: lines_of_def)
  have m: "map (comment_lines rt) comments = map Inr blocks"
    using each by (simp add: blocks_def)
  have enc: "\<forall>b \<in> set blocks. \<forall>l \<in> set b. encodable l"
    using each by (auto simp: blocks_def)
  have "length (lines_of c) = 4 \<and> separator \<notin> set (lines_of c)" if "c \<in> set comments" for c
    using each[OF that] comment_lines_shape[of rt c "lines_of c"] by blast
  then have shape: "\<forall>b \<in> set blocks. length b = 4 \<and> separator \<notin> set b"
    by (auto simp: blocks_def)
  have len: "length blocks = length comments" by (simp add: blocks_def)
  have ne: "blocks \<noteq> []" using assms(1) by (simp add: blocks_def)
  have w: "write_comments rt comments = (report, None)"
    unfolding write_comments_def report_def
    using write_loop_blocks[OF assms(1) _ m enc, of 0 "length comments" "[]"] by simp
  have lines: "text_lines report = py_join [separator] blocks
         \<and> length (text_lines report) = 5 * length comments - 1
         \<and> length (filter (\<lambda>l. l = separator) (text_lines report)) = length comments - 1
         \<and> last (text_lines report) \<noteq> separator"
    if nl: "\<forall>b \<in> set blocks. \<forall>l \<in> set b. 10 \<notin> set l"
  proof -
    have sep_nl: "10 \<notin> set separator" by (simp add: separator_def)
    have "\<forall>l \<in> set (py_join [separator] blocks). 10 \<notin> set l"
      using nl sep_nl py_join_set[of separator blocks] by auto
    then have 1: "text_lines report = py_join [separator] blocks"
      unfolding report_def by (rule text_lines_of_lines)
    have 2: "length (py_join [separator] blocks) = 5 * length comments - 1"
      using py_join_length[OF ne, of separator] shape len by simp
    have 3: "length (filter (\<lambda>l. l = separator) (py_join [separator] blocks)) = length comments - 1"
      using py_join_count[OF ne, of separator] shape len by simp
    have nonempty: "\<forall>b \<in> set blocks. b \<noteq> []" using shape by auto
    have "last (py_join [separator] blocks) = last (last blocks)"
      using py_join_last[OF ne nonempty] .
    moreover have "last (last blocks) \<in> set (last blocks)" using nonempty ne by simp
    moreover have "separator \<notin> set (last blocks)" using shape ne by simp
    ultimately have 4: "last (py_join [separator] blocks) \<noteq> separator" by metis
    show ?thesis using 1 2 3 4 by simp
  qed
  have fin: "(\<forall>b \<in> set blocks. \<forall>l \<in> set b. 10 \<notin> set l) \<longrightarrow>
           text_lines report = py_join [separator] blocks
         \<and> length (text_lines report) = 5 * length comments - 1
         \<and> length (filter (\<lambda>l. l = separator) (text_lines report)) = length comments - 1
         \<and> last (text_lines report) \<noteq> separator"
    using lines by blast
  show ?thesis
    apply (intro exI[of _ blocks] exI[of _ report] conjI)
        apply (rule m)
       apply (rule shape)
      apply (rule w)
     apply (rule report_def)
    apply (rule fin)
    done
qed

text \<open>The theorem on two comments: nine lines, the fifth being the separator.\<close>

theorem write_comments_report_witness:
  "plain_comments \<noteq> []
   \<and> snd (write_comments builtins_basic plain_comments) = None
   \<and> text_lines (fst (write_comments builtins_basic plain_comments))
       = [[1040, 1074, 1090, 1086, 1088, 58, 32] @ ascii ''ann'',
          [1044, 1072, 1090, 1072, 58, 32]
            @ [1044, 1072, 1090, 1072, 32, 1085, 1077, 1080, 1079, 1074, 1077, 1089, 1090, 1085, 1072],
          [1058, 1077, 1082, 1089, 1090, 58, 32] @ ascii ''thanks'',
          [1057, 1089, 1099, 1083, 1082, 1072, 58, 32]
            @ ascii ''Unknown source (url: , comment: unknown)'',
          separator,
          [1040, 1074, 1090, 1086, 1088, 58, 32] @ ascii ''bob'',
          [1044, 1072, 1090, 1072, 58, 32]
            @ [1044, 1072, 1090, 1072, 32, 1085, 1077, 1080, 1079, 1074, 1077, 1089, 1090, 1085, 1072],
          [1058, 1077, 1082, 1089, 1090, 58, 32] @ ascii ''super'',
          [1057, 1089, 1099, 1083, 1082, 1072, 58, 32]
            @ ascii ''Unknown source (url: , comment: 3)'']"
proof -
  let ?d = "[1044, 1072, 1090, 1072, 58, 32]
            @ [1044, 1072, 1090, 1072, 32, 1085, 1077, 1080, 1079, 1074, 1077, 1089, 1090, 1085, 1072]"
  let ?b1 = "[[1040, 1074, 1090, 1086, 1088, 58, 32] @ ascii ''ann'', ?d,
          [1058, 1077, 1082, 1089, 1090, 58, 32] @ ascii ''thanks'',
          [1057, 1089, 1099, 1083, 1082, 1072, 58, 32]
            @ ascii ''Unknown source (url: , comment: unknown)'']"
  let ?b2 = "[[1040, 1074, 1090, 1086, 1088, 58, 32] @ ascii ''bob'', ?d,
          [1058, 1077, 1082, 1089, 1090, 58, 32] @ ascii ''super'',
          [1057, 1089, 1099, 1083, 1082, 1072, 58, 32]
            @ ascii ''Unknown source (url: , comment: 3)'']"
  have k: "ascii ''author'' \<noteq> ascii ''text''" "ascii ''datetime'' \<noteq> ascii ''author''"
    "ascii ''datetime'' \<noteq> ascii ''text''" "ascii ''id'' \<noteq> ascii ''author''"
    "ascii ''id'' \<noteq> ascii ''text''" "ascii ''article_url'' \<noteq> ascii ''author''"
    "ascii ''article_url'' \<noteq> ascii ''text''" "ascii ''directory_name'' \<noteq> ascii ''author''"
    "ascii ''directory_name'' \<noteq> ascii ''text''" "ascii ''datetime'' \<noteq> ascii ''id''"
    "ascii ''article_url'' \<noteq> ascii ''id''" "ascii ''directory_name'' \<noteq> ascii ''id''"
    by (simp_all add: ascii_def)
  have u: "ascii ''Unknown source (url: , comment: '' @ ascii ''unknown'' @ ascii '')''
      = ascii ''Unknown source (url: , comment: unknown)''"
    "ascii ''Unknown source (url: , comment: '' @ str_of_int 3 @ ascii '')''
      = ascii ''Unknown source (url: , comment: 3)''"
    by (simp_all add: ascii_def str_of_int_def digits.simps)
  have c1: "comment_lines builtins_basic
        (JObj [(ascii ''author'', JStr (ascii ''ann'')), (ascii ''text'', JStr (ascii ''thanks''))])
      = Inr ?b1"
    by (simp add: comment_lines_def dict_get_def k k[symmetric] unknown_source_url and_then_def u)
  have c2: "comment_lines builtins_basic
        (JObj [(ascii ''author'', JStr (ascii ''bob'')), (ascii ''text'', JStr (ascii ''super'')),
               (ascii ''id'', JInt 3)])
      = Inr ?b2"
    by (simp add: comment_lines_def dict_get_def k k[symmetric] unknown_source_url and_then_def u)
  have cl: "map (comment_lines builtins_basic) plain_comments = map Inr [?b1, ?b2]"
    by (simp add: plain_comments_def c1 c2)
  have ne: "plain_comments \<noteq> []" by (simp add: plain_comments_def)
  have e1: "\<forall>l \<in> set ?b1. encodable l" by (simp add: encodable_def ascii_def)
  have e2: "\<forall>l \<in> set ?b2. encodable l" by (simp add: encodable_def ascii_def)
  have h1: "\<exists>ls. comment_lines builtins_basic
        (JObj [(ascii ''author'', JStr (ascii ''ann'')), (ascii ''text'', JStr (ascii ''thanks''))]) = Inr ls
        \<and> (\<forall>l \<in> set ls. encodable l)"
    using c1 e1 by blast
  have h2: "\<exists>ls. comment_lines builtins_basic
        (JObj [(ascii ''author'', JStr (ascii ''bob'')), (ascii ''text'', JStr (ascii ''super'')),
               (ascii ''id'', JInt 3)]) = Inr ls
        \<and> (\<forall>l \<in> set ls. encodable l)"
    using c2 e2 by blast
  have h: "\<forall>c \<in> set plain_comments. \<exists>ls. comment_lines builtins_basic c = Inr ls \<and> (\<forall>l \<in> set ls. encodable l)"
    unfolding plain_comments_def using h1 h2 by (simp del: ex_simps)
  from write_comments_report[OF ne h] obtain blocks report where
    b: "map (comment_lines builtins_basic) plain_comments = map Inr blocks"
    and w: "write_comments builtins_basic plain_comments = (report, None)"
    and t: "(\<forall>b \<in> set blocks. \<forall>l \<in> set b. 10 \<notin> set l) \<longrightarrow>
           text_lines report = py_join [separator] blocks
         \<and> length (text_lines report) = 5 * length plain_comments - 1
         \<and> length (filter (\<lambda>l. l = separator) (text_lines report)) = length plain_comments - 1
         \<and> last (text_lines report) \<noteq> separator"
    by (elim exE conjE)
  from b cl have "map Inr blocks = (map Inr [?b1, ?b2] :: (error + ustr list) list)" by simp
  then have bl: "blocks = [?b1, ?b2]"
    by (metis inj_Inr inj_map_eq_map)
  have nl: "\<forall>b \<in> set blocks. \<forall>l \<in> set b. 10 \<notin> set l"
    unfolding bl by (simp add: ascii_def)
  from t nl have "text_lines report = py_join [separator] blocks" by blast
  then have "text_lines report = ?b1 @ [separator] @ ?b2" unfolding bl by simp
  then show ?thesis using ne w by simp
qed

section \<open>The run\<close>

text \<open>A directory enters the groups only with a non-empty list, and a report is opened
  only for a directory of the groups; so every file written lies in a directory that
  exists and gave an accepted comment.\<close>

lemma extend_group_paths:
  "(\<lambda>g. dir_path (fst g)) ` set (extend_group d cs groups)
   = insert (dir_path d) ((\<lambda>g. dir_path (fst g)) ` set groups)"
  by (induction groups) auto

lemma process_files_paths:
  assumes "process_files rt analyzer d files state = Inr state'"
  shows "(\<lambda>g. dir_path (fst g)) ` set (fst state')
         \<subseteq> (\<lambda>g. dir_path (fst g)) ` set (fst state)
           \<union> (if list_all (\<lambda>f. case snd (process_json_file rt f analyzer (dir_name d)) of
                                  Inl e \<Rightarrow> True | Inr cs \<Rightarrow> cs = []) files
              then {} else {dir_path d})"
  using assms
proof (induction files arbitrary: state)
  case Nil
  then show ?case by simp
next
  case (Cons f files)
  obtain printed res where pr: "process_json_file rt f analyzer (dir_name d) = (printed, res)"
    by (cases "process_json_file rt f analyzer (dir_name d)")
  with Cons.prems obtain cs where cs: "res = Inr cs" by (cases res) auto
  let ?st = "(if cs \<noteq> [] then extend_group d cs (fst state) else fst state, snd state @ printed)"
  have run: "process_files rt analyzer d files ?st = Inr state'"
    using Cons.prems pr cs by simp
  note ih = Cons.IH[OF run]
  show ?case
  proof (cases "cs = []")
    case True
    with ih pr cs show ?thesis by simp
  next
    case False
    have "(\<lambda>g. dir_path (fst g)) ` set (fst ?st)
        = insert (dir_path d) ((\<lambda>g. dir_path (fst g)) ` set (fst state))"
      using False by (simp add: extend_group_paths)
    with ih have "(\<lambda>g. dir_path (fst g)) ` set (fst state')
        \<subseteq> insert (dir_path d) ((\<lambda>g. dir_path (fst g)) ` set (fst state))"
      by (auto split: if_splits)
    then show ?thesis using pr cs False by auto
  qed
qed

lemma process_dirs_paths:
  assumes "process_dirs rt analyzer dirs state = Inr state'"
  shows "(\<lambda>g. dir_path (fst g)) ` set (fst state')
         \<subseteq> (\<lambda>g. dir_path (fst g)) ` set (fst state)
           \<union> {dir_path d | d. d \<in> set dirs \<and> is_dir d \<and> \<not> no_accepted rt analyzer d}"
  using assms
proof (induction dirs arbitrary: state)
  case Nil
  then show ?case by simp
next
  case (Cons d dirs)
  show ?case
  proof (cases "is_dir d")
    case False
    with Cons.prems have "process_dirs rt analyzer dirs state = Inr state'" by simp
    from Cons.IH[OF this] show ?thesis by auto
  next
    case True
    with Cons.prems obtain mid where mid: "process_files rt analyzer d (json_files d) state = Inr mid"
      "process_dirs rt analyzer dirs mid = Inr state'"
      by (cases "process_files rt analyzer d (json_files d) state") auto
    have 1: "(\<lambda>g. dir_path (fst g)) ` set (fst mid)
         \<subseteq> (\<lambda>g. dir_path (fst g)) ` set (fst state)
           \<union> (if no_accepted rt analyzer d then {} else {dir_path d})"
      using process_files_paths[OF mid(1)] by (simp add: no_accepted_def)
    have 2: "(\<lambda>g. dir_path (fst g)) ` set (fst state')
         \<subseteq> (\<lambda>g. dir_path (fst g)) ` set (fst mid)
           \<union> {dir_path d | d. d \<in> set dirs \<and> is_dir d \<and> \<not> no_accepted rt analyzer d}"
      by (rule Cons.IH[OF mid(2)])
    show ?thesis
    proof
      fix p assume "p \<in> (\<lambda>g. dir_path (fst g)) ` set (fst state')"
      with 2 consider "p \<in> (\<lambda>g. dir_path (fst g)) ` set (fst mid)"
        | "p \<in> {dir_path d | d. d \<in> set dirs \<and> is_dir d \<and> \<not> no_accepted rt analyzer d}"
        by blast
      then show "p \<in> (\<lambda>g. dir_path (fst g)) ` set (fst state)
           \<union> {dir_path d' | d'. d' \<in> set (d # dirs) \<and> is_dir d' \<and> \<not> no_accepted rt analyzer d'}"
      proof cases
        case 1
        with \<open>(\<lambda>g. dir_path (fst g)) ` set (fst mid)
         \<subseteq> (\<lambda>g. dir_path (fst g)) ` set (fst state)
           \<union> (if no_accepted rt analyzer d then {} else {dir_path d})\<close> True
        show ?thesis by (auto split: if_splits)
      next
        case 2
        then show ?thesis by auto
      qed
    qed
  qed
qed

lemma write_reports_dirs:
  "in_dir ` set (fst (write_reports rt groups files))
   \<subseteq> in_dir ` set files \<union> (\<lambda>g. dir_path (fst g)) ` set groups"
proof (induction groups arbitrary: files)
  case Nil
  then show ?case by simp
next
  case (Cons g groups)
  show ?case
  proof (cases "sort_comments (snd g)")
    case (Inl e)
    then show ?thesis by auto
  next
    case (Inr comments)
    show ?thesis
    proof (cases "writable (fst g)")
      case False
      with Inr show ?thesis by auto
    next
      case True
      obtain written err where w: "write_comments rt comments = (written, err)"
        by (cases "write_comments rt comments")
      let ?files = "files @ [\<lparr> in_dir = dir_path (fst g),
                               report_name = dir_name (fst g) @ ascii ''_positive_comments.txt'',
                               report_text = written \<rparr>]"
      show ?thesis
      proof (cases err)
        case (Some e)
        with Inr True w show ?thesis by (auto simp: Let_def)
      next
        case None
        have "fst (write_reports rt (g # groups) files) = fst (write_reports rt groups ?files)"
          using Inr True w None by (simp add: Let_def)
        moreover have "in_dir ` set (fst (write_reports rt groups ?files))
            \<subseteq> in_dir ` set ?files \<union> (\<lambda>g. dir_path (fst g)) ` set groups"
          by (rule Cons.IH)
        ultimately show ?thesis by auto
      qed
    qed
  qed
qed

lemma main_files_dirs:
  "in_dir ` set (files_written (main rt input_dirs (Some analyzer)))
   \<subseteq> {dir_path d | d. d \<in> set input_dirs \<and> is_dir d \<and> \<not> no_accepted rt analyzer d}"
proof (cases "count_files input_dirs = 0")
  case True
  then show ?thesis by (simp add: main_def)
next
  case False
  show ?thesis
  proof (cases "process_dirs rt analyzer input_dirs ([], [])")
    case (Inl e)
    with False show ?thesis by (simp add: main_def)
  next
    case (Inr state)
    obtain groups printed where st: "state = (groups, printed)" by (cases state)
    obtain files err where w: "write_reports rt groups [] = (files, err)"
      by (cases "write_reports rt groups []")
    have f: "files_written (main rt input_dirs (Some analyzer)) = files"
      using False Inr st w by (cases err) (simp_all add: main_def)
    have "in_dir ` set files \<subseteq> (\<lambda>g. dir_path (fst g)) ` set groups"
      using write_reports_dirs[of rt groups "[]"] w by simp
    moreover have "(\<lambda>g. dir_path (fst g)) ` set groups
        \<subseteq> {dir_path d | d. d \<in> set input_dirs \<and> is_dir d \<and> \<not> no_accepted rt analyzer d}"
      using process_dirs_paths[OF Inr] st by simp
    ultimately show ?thesis using f by blast
  qed
qed

lemma write_reports_single:
  assumes "sort_comments (snd g) = Inr comments" "writable (fst g)"
  shows "map in_dir (fst (write_reports rt [g] [])) = [dir_path (fst g)]"
proof -
  obtain written err where w: "write_comments rt comments = (written, err)"
    by (cases "write_comments rt comments")
  show ?thesis using assms w by (cases err) (simp_all add: Let_def)
qed

lemma main_files_written:
  assumes "count_files input_dirs \<noteq> 0"
    and "process_dirs rt analyzer input_dirs ([], []) = Inr (groups, printed)"
  shows "files_written (main rt input_dirs (Some analyzer)) = fst (write_reports rt groups [])"
proof -
  obtain files err where w: "write_reports rt groups [] = (files, err)"
    by (cases "write_reports rt groups []")
  show ?thesis using assms w by (cases err) (simp_all add: main_def)
qed

lemma broken_file_result:
  "process_json_file rt broken_file analyzer dn
   = ([read_warning (ascii ''b.json'') (ascii ''Expecting value'')], Inr [])"
  by (simp add: process_json_file_def broken_file_def)

text \<open>
  C7. No report is written into a directory none of whose files gave an accepted
  comment, however the run ends; when no directory gave one, no file is written at all,
  and none is written when the model cannot be loaded.
\<close>

theorem main_no_report_without_accepted:
  "((\<forall>d \<in> set input_dirs. dir_path d = p \<and> is_dir d \<longrightarrow> no_accepted rt analyzer d) \<longrightarrow>
      (\<forall>r \<in> set (files_written (main rt input_dirs (Some analyzer))). in_dir r \<noteq> p))
   \<and> ((\<forall>d \<in> set input_dirs. is_dir d \<longrightarrow> no_accepted rt analyzer d) \<longrightarrow>
      files_written (main rt input_dirs (Some analyzer)) = [])
   \<and> files_written (main rt input_dirs None) = []"
proof (intro conjI impI)
  assume a: "\<forall>d \<in> set input_dirs. dir_path d = p \<and> is_dir d \<longrightarrow> no_accepted rt analyzer d"
  show "\<forall>r \<in> set (files_written (main rt input_dirs (Some analyzer))). in_dir r \<noteq> p"
  proof
    fix r assume "r \<in> set (files_written (main rt input_dirs (Some analyzer)))"
    then have "in_dir r \<in> {dir_path d | d. d \<in> set input_dirs \<and> is_dir d \<and> \<not> no_accepted rt analyzer d}"
      using main_files_dirs[of rt input_dirs analyzer] by blast
    then show "in_dir r \<noteq> p" using a by auto
  qed
next
  assume a: "\<forall>d \<in> set input_dirs. is_dir d \<longrightarrow> no_accepted rt analyzer d"
  show "files_written (main rt input_dirs (Some analyzer)) = []"
  proof (rule ccontr)
    assume "files_written (main rt input_dirs (Some analyzer)) \<noteq> []"
    then have "hd (files_written (main rt input_dirs (Some analyzer)))
        \<in> set (files_written (main rt input_dirs (Some analyzer)))"
      by (rule hd_in_set)
    then obtain r where "r \<in> set (files_written (main rt input_dirs (Some analyzer)))" ..
    then have "in_dir r \<in> {dir_path d | d. d \<in> set input_dirs \<and> is_dir d \<and> \<not> no_accepted rt analyzer d}"
      using main_files_dirs[of rt input_dirs analyzer] by blast
    then obtain d where "d \<in> set input_dirs" "is_dir d" "\<not> no_accepted rt analyzer d" by blast
    with a show False by blast
  qed
next
  show "files_written (main rt input_dirs None) = []"
    by (simp add: main_def)
qed

text \<open>The theorem on two directories: the one whose only file is broken gets no report,
  the other one gets the only file written.\<close>

theorem main_no_report_without_accepted_witness:
  "no_accepted builtins_basic example_analyzer tj_dir
   \<and> map in_dir (files_written (main builtins_basic [habr_dir, tj_dir] (Some example_analyzer)))
       = [ascii ''./habr_comments'']
   \<and> ascii ''./t-j_comments''
       \<notin> in_dir ` set (files_written (main builtins_basic [habr_dir, tj_dir] (Some example_analyzer)))"
proof -
  let ?rec = "JObj (example_comment @
                [(ascii ''article_url'', JStr (ascii ''https://habr.com/ru/articles/1/'')),
                 (ascii ''directory_name'', JStr (ascii ''habr_comments''))])"
  let ?w = "read_warning (ascii ''b.json'') (ascii ''Expecting value'')"
  have na: "no_accepted builtins_basic example_analyzer tj_dir"
    by (simp add: no_accepted_def tj_dir_def broken_file_result)
  have pne: "dir_path habr_dir \<noteq> ascii ''./t-j_comments''"
    by (simp add: habr_dir_def ascii_def)
  have h: "\<forall>d \<in> set [habr_dir, tj_dir]. dir_path d = ascii ''./t-j_comments'' \<and> is_dir d
        \<longrightarrow> no_accepted builtins_basic example_analyzer d"
    using na pne by simp
  from main_no_report_without_accepted[of "[habr_dir, tj_dir]" "ascii ''./t-j_comments''"
      builtins_basic example_analyzer] h
  have none: "\<forall>r \<in> set (files_written (main builtins_basic [habr_dir, tj_dir] (Some example_analyzer))).
        in_dir r \<noteq> ascii ''./t-j_comments''"
    by blast
  have cnt: "count_files [habr_dir, tj_dir] \<noteq> 0"
    by (simp add: count_files_def habr_dir_def tj_dir_def)
  have pd: "process_dirs builtins_basic example_analyzer [habr_dir, tj_dir] ([], [])
      = Inr ([(habr_dir, [?rec])], [?w, ?w])"
    by (simp add: habr_dir_def tj_dir_def broken_file_result example_file_result)
  have k: "ascii ''id'' \<noteq> ascii ''author''" by (simp add: ascii_def)
  have sc: "sort_comments (snd (habr_dir, [?rec])) = Inr [?rec]"
    by (simp add: sort_comments_def id_key_def example_comment_def)
  have wr: "writable (fst (habr_dir, [?rec]))" by (simp add: habr_dir_def)
  have "map in_dir (fst (write_reports builtins_basic [(habr_dir, [?rec])] []))
      = [dir_path (fst (habr_dir, [?rec]))]"
    using sc wr by (rule write_reports_single)
  then have ev: "map in_dir (files_written (main builtins_basic [habr_dir, tj_dir] (Some example_analyzer)))
       = [ascii ''./habr_comments'']"
    using main_files_written[OF cnt pd] by (simp add: habr_dir_def)
  from none have "ascii ''./t-j_comments''
       \<notin> in_dir ` set (files_written (main builtins_basic [habr_dir, tj_dir] (Some example_analyzer)))"
    by (auto simp: image_iff)
  with na ev show ?thesis by (intro conjI)
qed

end
